theory Spec2Isabelle
  imports Main
begin

section \<open>Strings\<close>

text \<open>
  A Python \<open>str\<close> is a sequence of code points, each a natural number; \<open>str ''abc''\<close> is the
  string of a literal.
\<close>

type_synonym pystr = "nat list"

definition str :: "string \<Rightarrow> pystr" where
  "str s = map of_char s"

definition is_space :: "nat \<Rightarrow> bool" where
  \<comment> \<open>\<open>str.isspace\<close> on one code point; the class \<open>\s\<close> of \<open>re\<close> on a \<open>str\<close> is the same set\<close>
  "is_space n =
     ((9 \<le> n \<and> n \<le> 13) \<or> (28 \<le> n \<and> n \<le> 32) \<or> n = 133 \<or> n = 160 \<or> n = 5760 \<or>
      (8192 \<le> n \<and> n \<le> 8202) \<or> n = 8232 \<or> n = 8233 \<or> n = 8239 \<or> n = 8287 \<or> n = 12288)"

definition lstrip_chars :: "pystr \<Rightarrow> pystr \<Rightarrow> pystr" where
  "lstrip_chars cs s = dropWhile (\<lambda>c. c \<in> set cs) s"

definition rstrip_chars :: "pystr \<Rightarrow> pystr \<Rightarrow> pystr" where
  "rstrip_chars cs s = rev (dropWhile (\<lambda>c. c \<in> set cs) (rev s))"

definition strip_chars :: "pystr \<Rightarrow> pystr \<Rightarrow> pystr" where
  "strip_chars cs s = lstrip_chars cs (rstrip_chars cs s)"

definition strip :: "pystr \<Rightarrow> pystr" where
  \<comment> \<open>\<open>s.strip()\<close>: white space removed at both ends.\<close>
  "strip s = dropWhile is_space (rev (dropWhile is_space (rev s)))"

definition lower_char :: "nat \<Rightarrow> nat" where
  \<comment> \<open>Case folding as far as the patterns below can see it: under \<open>re.I\<close> each letter of
      \<open>free\<close> and \<open>download\<close> matches its lower-case and its upper-case ASCII form and no
      other code point.\<close>
  "lower_char n = (if 65 \<le> n \<and> n \<le> 90 then n + 32 else n)"

definition istarts_with :: "pystr \<Rightarrow> pystr \<Rightarrow> bool" where
  \<comment> \<open>the lower-case literal \<open>pat\<close> matches at the start of \<open>s\<close>, ignoring case\<close>
  "istarts_with pat s = (map lower_char (take (length pat) s) = pat)"

definition newline :: nat where
  "newline = 10"

section \<open>Name normalisation\<close>

subsection \<open>The three regular expressions of \<open>clean_name\<close>\<close>

text \<open>
  \<open>\s*free\s+download.*$\<close> with \<open>re.I\<close>. At a position the pattern matches iff, after the
  white space there, \<open>free\<close>, at least one white space and \<open>download\<close> follow, and the rest
  of the string has no line feed but possibly its last character (\<open>.\<close> does not match a
  line feed). The match then runs to the end, or to the final line feed.
\<close>

definition rest_of_line :: "pystr \<Rightarrow> bool" where
  "rest_of_line r = (newline \<notin> set r \<or> (r \<noteq> [] \<and> last r = newline \<and> newline \<notin> set (butlast r)))"

definition free_download_at :: "pystr \<Rightarrow> bool" where
  "free_download_at s =
     (let s1 = dropWhile is_space s in
      istarts_with (str ''free'') s1 \<and>
      (let s2 = drop 4 s1 in
       s2 \<noteq> [] \<and> is_space (hd s2) \<and>
       (let s3 = dropWhile is_space s2 in
        istarts_with (str ''download'') s3 \<and> rest_of_line (drop 8 s3))))"

fun sub_free_download :: "pystr \<Rightarrow> pystr" where
  \<comment> \<open>\<open>re.sub(r"\s*free\s+download.*$", "", text, flags=re.I)\<close>: the leftmost match is
      removed; what is left after it (nothing, or one line feed) has no further match.\<close>
  "sub_free_download [] = []"
| "sub_free_download (c # cs) =
     (if free_download_at (c # cs)
      then (if last (c # cs) = newline then [newline] else [])
      else c # sub_free_download cs)"

text \<open>
  \<open>\s*\(.*?\)\s*$\<close>. At a position the pattern matches iff, after the white space there, an
  opening parenthesis follows, and the last character of the string that is not white space
  is a closing parenthesis after it, with no line feed in between. The lazy \<open>.*?\<close> grows
  until that closing parenthesis, and the match runs to the end of the string.
\<close>

definition paren_closes :: "pystr \<Rightarrow> bool" where
  "paren_closes r =
     (let r' = rev (dropWhile is_space (rev r))
      in r' \<noteq> [] \<and> last r' = of_char CHR '')'' \<and> newline \<notin> set (butlast r'))"

definition paren_at :: "pystr \<Rightarrow> bool" where
  "paren_at s =
     (let s1 = dropWhile is_space s
      in s1 \<noteq> [] \<and> hd s1 = of_char CHR ''('' \<and> paren_closes (tl s1))"

fun sub_paren :: "pystr \<Rightarrow> pystr" where
  \<comment> \<open>\<open>re.sub(r"\s*\(.*?\)\s*$", "", text)\<close>\<close>
  "sub_paren [] = []"
| "sub_paren (c # cs) = (if paren_at (c # cs) then [] else c # sub_paren cs)"

function collapse_ws :: "pystr \<Rightarrow> pystr" where
  \<comment> \<open>\<open>re.sub(r"\s+", " ", text)\<close>: every maximal run of white space becomes one space\<close>
  "collapse_ws [] = []"
| "collapse_ws (c # cs) =
     (if is_space c then of_char CHR '' '' # collapse_ws (dropWhile is_space cs)
      else c # collapse_ws cs)"
  by pat_completeness auto
termination
  by (relation "measure length") (auto simp: length_dropWhile_le le_imp_less_Suc)

subsection \<open>\<open>html.unescape\<close>\<close>

text \<open>
  \<open>html.unescape\<close> belongs to the Python standard library. Its body is
  \<^verbatim>\<open>if '&' not in s: return s\<close> followed by \<^verbatim>\<open>return _charref.sub(_replace_charref, s)\<close>.
  The replacement of character references, with its table of entity names, is the parameter
  \<open>charref\<close> of the model.
\<close>

definition unescape :: "(pystr \<Rightarrow> pystr) \<Rightarrow> pystr \<Rightarrow> pystr" where
  "unescape charref s = (if of_char CHR ''&'' \<notin> set s then s else charref s)"

subsection \<open>\<open>clean_name\<close>\<close>

definition stray :: pystr where
  \<comment> \<open>the argument of the last \<open>strip\<close>: space, hyphen, en dash (U+2013), plus, comma, colon\<close>
  "stray = str '' -'' @ [8211] @ str ''+,:''"

definition clean_name :: "(pystr \<Rightarrow> pystr) \<Rightarrow> pystr \<Rightarrow> pystr" where
  "clean_name charref raw_text =
     (if raw_text = [] then []
      else
        let text = strip raw_text;
            text = strip (sub_free_download text);
            text = strip (sub_paren text);
            text = strip_chars stray (collapse_ws text)
        in unescape charref text)"

section \<open>The store\<close>

text \<open>
  The three tables of \<open>init_db\<close>, each a list of rows in insertion order, and for each table
  the largest id that \<open>AUTOINCREMENT\<close> has given out (its row of \<open>sqlite_sequence\<close>, which
  belongs to the store and takes part in its transactions). The column \<open>games.Url\<close> is only
  ever written by \<open>insert_game\<close>, with a \<open>str\<close>; the column \<open>Name\<close> receives \<open>g.get("Name")\<close>,
  which is \<open>None\<close> (SQL \<open>NULL\<close>) when the key is absent.
\<close>

record game_row =
  g_id :: nat
  g_name :: "pystr option"
  g_url :: pystr
  g_first_seen :: pystr
  g_last_seen :: pystr

record run_row =
  r_id :: nat
  r_run_at :: pystr
  r_snapshot_count :: nat

record run_game_row =
  rg_id :: nat
  rg_run_id :: nat
  rg_name :: "pystr option"
  rg_url :: pystr
  rg_is_new :: bool

record db =
  games :: "game_row list"
  runs :: "run_row list"
  run_games :: "run_game_row list"
  games_seq :: nat
  runs_seq :: nat
  run_games_seq :: nat

definition init_db :: db where
  \<comment> \<open>the store after \<open>init_db\<close> on a new file: three empty tables, no id given out\<close>
  "init_db =
     \<lparr>games = [], runs = [], run_games = [], games_seq = 0, runs_seq = 0, run_games_seq = 0\<rparr>"

definition next_rowid :: "nat \<Rightarrow> nat list \<Rightarrow> nat" where
  \<comment> \<open>\<open>INTEGER PRIMARY KEY AUTOINCREMENT\<close>: one more than the larger of the table's
      \<open>sqlite_sequence\<close> and the largest id in the table\<close>
  "next_rowid seq ids = Suc (max seq (fold max ids 0))"

subsection \<open>The SQL statements\<close>

definition sql_count_games :: "db \<Rightarrow> nat \<times> db" where
  \<comment> \<open>\<open>SELECT COUNT(*) FROM games\<close>\<close>
  "sql_count_games d = (length (games d), d)"

definition sql_insert_run :: "pystr \<Rightarrow> nat \<Rightarrow> db \<Rightarrow> nat \<times> db" where
  \<comment> \<open>\<open>INSERT INTO runs(run_at, snapshot_count) VALUES (?, ?)\<close>; the value is \<open>cur.lastrowid\<close>\<close>
  "sql_insert_run run_at snapshot_count d =
     (let rid = next_rowid (runs_seq d) (map r_id (runs d))
      in (rid, d\<lparr>runs := runs d @
            [\<lparr>r_id = rid, r_run_at = run_at, r_snapshot_count = snapshot_count\<rparr>],
            runs_seq := rid\<rparr>))"

definition sql_insert_run_game :: "nat \<Rightarrow> pystr option \<Rightarrow> pystr \<Rightarrow> bool \<Rightarrow> db \<Rightarrow> unit \<times> db" where
  \<comment> \<open>\<open>INSERT INTO run_games(run_id, Name, Url, is_new) VALUES (?, ?, ?, ?)\<close>\<close>
  "sql_insert_run_game run_id name url is_new d =
     (let i = next_rowid (run_games_seq d) (map rg_id (run_games d))
      in ((), d\<lparr>run_games := run_games d @
            [\<lparr>rg_id = i, rg_run_id = run_id, rg_name = name, rg_url = url, rg_is_new = is_new\<rparr>],
            run_games_seq := i\<rparr>))"

definition sql_insert_or_ignore_game :: "pystr option \<Rightarrow> pystr \<Rightarrow> pystr \<Rightarrow> db \<Rightarrow> unit \<times> db" where
  \<comment> \<open>\<open>INSERT OR IGNORE INTO games(Name, Url, first_seen, last_seen) VALUES (?, ?, ?, ?)\<close>:
      \<open>Url\<close> is \<open>UNIQUE\<close>, so the row is dropped when a row with this \<open>Url\<close> exists; the id
      prepared for it is used up all the same\<close>
  "sql_insert_or_ignore_game name url seen_at d =
     (let i = next_rowid (games_seq d) (map g_id (games d))
      in ((), if url \<in> set (map g_url (games d)) then d\<lparr>games_seq := i\<rparr>
              else d\<lparr>games := games d @
                [\<lparr>g_id = i, g_name = name, g_url = url, g_first_seen = seen_at,
                  g_last_seen = seen_at\<rparr>],
                games_seq := i\<rparr>))"

definition sql_update_last_seen :: "pystr \<Rightarrow> pystr \<Rightarrow> db \<Rightarrow> unit \<times> db" where
  \<comment> \<open>\<open>UPDATE games SET last_seen = ? WHERE Url = ?\<close>\<close>
  "sql_update_last_seen seen_at url d =
     ((), d\<lparr>games := map (\<lambda>r. if g_url r = url then r\<lparr>g_last_seen := seen_at\<rparr> else r) (games d)\<rparr>)"

definition sql_select_game_id :: "pystr \<Rightarrow> db \<Rightarrow> nat option \<times> db" where
  \<comment> \<open>\<open>SELECT id FROM games WHERE Url = ?\<close> followed by \<open>fetchone()\<close>\<close>
  "sql_select_game_id url d = (map_option g_id (find (\<lambda>r. g_url r = url) (games d)), d)"

subsection \<open>The connection\<close>

text \<open>
  A connection holds the committed store, the store as the connection sees it (with the
  changes of the open transaction), and how many more statements the store will carry out
  before \<open>sqlite3\<close> raises: \<open>None\<close> when it never does. A statement that raises changes
  nothing. When an exception leaves \<open>run_persist\<close>, \<open>main\<close> closes the connection, which
  discards the open transaction: what remains is \<open>committed\<close>.
\<close>

datatype error = OperationalError | OSError | KeyError | TypeError

record conn =
  committed :: db
  working :: db
  stmts_left :: "nat option"

type_synonym 'a io = "conn \<Rightarrow> (error + 'a) \<times> conn"

definition io_return :: "'a \<Rightarrow> 'a io" where
  "io_return a c = (Inr a, c)"

definition io_bind :: "'a io \<Rightarrow> ('a \<Rightarrow> 'b io) \<Rightarrow> 'b io" where
  "io_bind m f c = (case m c of (Inl e, c') \<Rightarrow> (Inl e, c') | (Inr a, c') \<Rightarrow> f a c')"

definition exhausted :: "conn \<Rightarrow> bool" where
  "exhausted c = (stmts_left c = Some 0)"

definition spend :: "conn \<Rightarrow> conn" where
  "spend c = c\<lparr>stmts_left := map_option (\<lambda>k. k - 1) (stmts_left c)\<rparr>"

definition execute :: "(db \<Rightarrow> 'a \<times> db) \<Rightarrow> 'a io" where
  \<comment> \<open>\<open>cur.execute(...)\<close>, with the fetch that follows it\<close>
  "execute stmt c =
     (if exhausted c then (Inl OperationalError, c)
      else (Inr (fst (stmt (working c))), (spend c)\<lparr>working := snd (stmt (working c))\<rparr>))"

definition commit :: "unit io" where
  \<comment> \<open>\<open>conn.commit()\<close>\<close>
  "commit c =
     (if exhausted c then (Inl OperationalError, c)
      else (Inr (), (spend c)\<lparr>committed := working c\<rparr>))"

definition connect_db :: "db \<Rightarrow> nat option \<Rightarrow> conn" where
  \<comment> \<open>a connection just opened on a store: no open transaction\<close>
  "connect_db d k = \<lparr>committed = d, working = d, stmts_left = k\<rparr>"

section \<open>Synchronisation\<close>

text \<open>
  A candidate is a \<open>dict\<close> read at the keys \<open>"Name"\<close> and \<open>"Url"\<close>; \<open>None\<close> is what \<open>g.get\<close>
  gives at a key that is absent. An entry of \<open>new_entries\<close> is the \<open>dict\<close> that line 385
  builds, with both keys.
\<close>

record game =
  Name :: "pystr option"
  Url :: "pystr option"

definition get_games_count :: "nat io" where
  "get_games_count = execute sql_count_games"

definition create_run :: "pystr \<Rightarrow> nat \<Rightarrow> nat io" where
  "create_run run_at snapshot_count =
     io_bind (execute (sql_insert_run run_at snapshot_count)) (\<lambda>lastrowid.
     io_bind commit (\<lambda>_. io_return lastrowid))"

definition insert_run_game :: "nat \<Rightarrow> pystr option \<Rightarrow> pystr \<Rightarrow> bool \<Rightarrow> unit io" where
  "insert_run_game run_id name url is_new = execute (sql_insert_run_game run_id name url is_new)"

definition insert_game :: "pystr option \<Rightarrow> pystr \<Rightarrow> pystr \<Rightarrow> unit io" where
  "insert_game name url seen_at =
     io_bind (execute (sql_insert_or_ignore_game name url seen_at)) (\<lambda>_.
     execute (sql_update_last_seen seen_at url))"

definition update_game_last_seen :: "pystr \<Rightarrow> pystr \<Rightarrow> unit io" where
  "update_game_last_seen url seen_at = execute (sql_update_last_seen seen_at url)"

definition url_of :: "game \<Rightarrow> pystr" where
  \<comment> \<open>\<open>(g.get("Url") or "").rstrip("/")\<close>\<close>
  "url_of g = rstrip_chars (str ''/'') (case Url g of None \<Rightarrow> [] | Some u \<Rightarrow> u)"

fun run_persist_loop :: "nat \<Rightarrow> pystr \<Rightarrow> bool \<Rightarrow> game list \<Rightarrow> game list \<Rightarrow> game list io" where
  "run_persist_loop run_id run_at first_run [] new_entries = io_return new_entries"
| "run_persist_loop run_id run_at first_run (g # results) new_entries =
     (let name = Name g; url = url_of g in
      if url = [] then run_persist_loop run_id run_at first_run results new_entries
      else
        io_bind (execute (sql_select_game_id url)) (\<lambda>existing.
        if existing \<noteq> None then
          io_bind (update_game_last_seen url run_at) (\<lambda>_.
          io_bind (insert_run_game run_id name url False) (\<lambda>_.
          run_persist_loop run_id run_at first_run results new_entries))
        else
          io_bind (insert_game name url run_at) (\<lambda>_.
          let is_new_flag = (if first_run then False else True) in
          io_bind (insert_run_game run_id name url is_new_flag) (\<lambda>_.
          run_persist_loop run_id run_at first_run results
            (if is_new_flag then new_entries @ [\<lparr>Name = name, Url = Some url\<rparr>]
             else new_entries)))))"

definition run_persist :: "pystr \<Rightarrow> game list \<Rightarrow> (bool \<times> game list) io" where
  \<comment> \<open>\<open>run_at\<close> is the clock's \<open>datetime.now(timezone.utc).isoformat()\<close>\<close>
  "run_persist run_at results =
     io_bind get_games_count (\<lambda>pre_count.
     io_bind (create_run run_at (length results)) (\<lambda>run_id.
     let first_run = (pre_count = 0) in
     io_bind (run_persist_loop run_id run_at first_run results []) (\<lambda>new_entries.
     io_bind commit (\<lambda>_.
     io_return (first_run, new_entries)))))"


section \<open>The historical feed\<close>

text \<open>
  What \<open>json.load\<close> returns is a JSON value. The items of an object are listed in the order
  of the \<open>dict\<close>, each key once; a number is shown by an integer, and the code never looks
  inside one.
\<close>

datatype json =
  JNull
  | JBool bool
  | JNumber int
  | JString pystr
  | JArray "json list"
  | JObject "(pystr \<times> json) list"

text \<open>
  The feed file is \<open>Missing\<close> when \<open>os.path.exists\<close> says no, \<open>Unopenable\<close> when it exists and
  \<open>open\<close> raises (no permission, a directory at the path), and otherwise has a content.
  \<open>json.load\<close> and \<open>json.dump\<close> belong to the standard library and are parameters:
  \<open>json_load text\<close> is \<open>None\<close> when \<open>json.load\<close> raises on the file (text that is not JSON,
  bytes that are not UTF-8), and the value it returns otherwise; \<open>json_dump\<close> is the text
  written for a list whose items are entries of \<open>new_entries\<close> and items of the loaded feed.
\<close>

datatype feed_file = Missing | Unopenable | Content pystr

definition load_json_games :: "(pystr \<Rightarrow> json option) \<Rightarrow> feed_file \<Rightarrow> error + json" where
  \<comment> \<open>\<open>open\<close> stands before the \<open>try\<close>: only what \<open>json.load\<close> raises is caught\<close>
  "load_json_games json_load f =
     (case f of
        Missing \<Rightarrow> Inr (JArray [])
      | Unopenable \<Rightarrow> Inl OSError
      | Content text \<Rightarrow> Inr (case json_load text of None \<Rightarrow> JArray [] | Some v \<Rightarrow> v))"

definition iterate :: "json \<Rightarrow> error + json list" where
  \<comment> \<open>\<open>for g in v\<close>: the items of a list, the keys of a \<open>dict\<close>, the characters of a \<open>str\<close>\<close>
  "iterate v =
     (case v of
        JArray xs \<Rightarrow> Inr xs
      | JObject kvs \<Rightarrow> Inr (map (\<lambda>kv. JString (fst kv)) kvs)
      | JString s \<Rightarrow> Inr (map (\<lambda>c. JString [c]) s)
      | _ \<Rightarrow> Inl TypeError)"

definition getitem_Url :: "json \<Rightarrow> error + json" where
  \<comment> \<open>\<open>g["Url"]\<close>\<close>
  "getitem_Url g =
     (case g of
        JObject kvs \<Rightarrow> (case map_of kvs (str ''Url'') of None \<Rightarrow> Inl KeyError | Some v \<Rightarrow> Inr v)
      | _ \<Rightarrow> Inl TypeError)"

definition hashable :: "json \<Rightarrow> bool" where
  "hashable v = (case v of JArray _ \<Rightarrow> False | JObject _ \<Rightarrow> False | _ \<Rightarrow> True)"

fun url_set :: "json list \<Rightarrow> error + json list" where
  \<comment> \<open>\<open>{g["Url"] for g in gs}\<close>, as the list of its members: each \<open>g["Url"]\<close> is looked up and
      put into the set, which raises \<open>TypeError\<close> on a list or a \<open>dict\<close>\<close>
  "url_set [] = Inr []"
| "url_set (g # gs) =
     (case getitem_Url g of
        Inl e \<Rightarrow> Inl e
      | Inr v \<Rightarrow>
          if \<not> hashable v then Inl TypeError
          else (case url_set gs of Inl e \<Rightarrow> Inl e | Inr vs \<Rightarrow> Inr (v # vs)))"

fun urls_of :: "game list \<Rightarrow> error + pystr list" where
  \<comment> \<open>\<open>g["Url"]\<close> for each \<open>g\<close> of \<open>new_entries\<close> in turn: \<open>KeyError\<close> at the first entry
      without the key\<close>
  "urls_of [] = Inr []"
| "urls_of (g # gs) =
     (case Url g of
        None \<Rightarrow> Inl KeyError
      | Some u \<Rightarrow> (case urls_of gs of Inl e \<Rightarrow> Inl e | Inr us \<Rightarrow> Inr (u # us)))"

definition save_new_games_file ::
  "(pystr \<Rightarrow> json option) \<Rightarrow> ((game + json) list \<Rightarrow> pystr) \<Rightarrow> game list \<Rightarrow> feed_file
     \<Rightarrow> error + feed_file"
where
  \<comment> \<open>the value is the file after the call\<close>
  "save_new_games_file json_load json_dump new_entries f =
     (if new_entries = [] then Inr f
      else
        case load_json_games json_load f of
          Inl e \<Rightarrow> Inl e
        | Inr existing_new \<Rightarrow>
            (case iterate existing_new of
               Inl e \<Rightarrow> Inl e
             | Inr gs \<Rightarrow>
                 (case url_set gs of
                    Inl e \<Rightarrow> Inl e
                  | Inr existing_urls \<Rightarrow>
                      (case urls_of new_entries of
                         Inl e \<Rightarrow> Inl e
                       | Inr _ \<Rightarrow>
                           let truly_new =
                             filter (\<lambda>g. map_option JString (Url g) \<notin> Some ` set existing_urls)
                               new_entries
                           in if truly_new = [] then Inr f
                              else (case existing_new of
                                      JArray es \<Rightarrow>
                                        Inr (Content (json_dump (map Inl truly_new @ map Inr es)))
                                    | _ \<Rightarrow> Inl TypeError)))))"

section \<open>Extraction\<close>

definition origin :: pystr where
  "origin = str ''https://steamrip.com''"

definition rebase_href :: "pystr \<Rightarrow> pystr" where
  \<comment> \<open>the \<open>href\<close> computed from \<open>raw_href\<close> in the loop of \<open>extract_games_from_html\<close>\<close>
  "rebase_href raw_href =
     (let href = (if raw_href \<noteq> [] \<and> hd raw_href = of_char CHR ''/''
                  then origin @ lstrip_chars (str ''/'') raw_href
                  else raw_href)
      in rstrip_chars (str ''/'') href)"

definition last_segment :: "pystr \<Rightarrow> pystr" where
  \<comment> \<open>\<open>s.split("/")[-1]\<close>\<close>
  "last_segment s = rev (takeWhile (\<lambda>c. c \<noteq> of_char CHR ''/'') (rev s))"

definition sub_free_download_suffix :: "pystr \<Rightarrow> pystr" where
  \<comment> \<open>\<open>re.sub(r'-free-download$', '', slug, flags=re.I)\<close>\<close>
  "sub_free_download_suffix s =
     (let n = length s in
      if 14 \<le> n \<and> map lower_char (drop (n - 14) s) = str ''-free-download'' then take (n - 14) s
      else if 15 \<le> n \<and> last s = newline
                \<and> map lower_char (take 14 (drop (n - 15) s)) = str ''-free-download''
      then take (n - 15) s @ [newline]
      else s)"

definition slug_name :: "pystr \<Rightarrow> pystr" where
  \<comment> \<open>the name derived from the last path segment when \<open>clean_name\<close> gives nothing\<close>
  "slug_name href =
     strip (map (\<lambda>c. if c = of_char CHR ''-'' then of_char CHR '' '' else c)
        (sub_free_download_suffix (last_segment (rstrip_chars (str ''/'') href))))"

fun extract_loop :: "(pystr \<Rightarrow> pystr) \<Rightarrow> (pystr \<times> pystr) list \<Rightarrow> pystr set \<Rightarrow> game list" where
  \<comment> \<open>the loop over the matches, each given by its groups 1 and 2; \<open>seen\<close> is the set of
      links emitted so far\<close>
  "extract_loop charref [] seen = []"
| "extract_loop charref ((group1, group2) # ms) seen =
     (let raw_href = strip group1; raw_text = strip group2 in
      if raw_href = [] then extract_loop charref ms seen
      else
        let href = rebase_href raw_href;
            name = clean_name charref raw_text;
            name = (if name = [] then slug_name href else name)
        in if name = [] \<or> href = [] then extract_loop charref ms seen
           else if href \<in> seen then extract_loop charref ms seen
           else \<lparr>Name = Some name, Url = Some href\<rparr> # extract_loop charref ms (insert href seen))"

definition extract_games_from_html ::
  "(pystr \<Rightarrow> pystr) \<Rightarrow> (pystr \<Rightarrow> (pystr \<times> pystr) list) \<Rightarrow> pystr \<Rightarrow> game list" where
  \<comment> \<open>\<open>finditer\<close> is \<open>re.finditer\<close> with the anchor pattern: the groups of each match, in
      document order\<close>
  "extract_games_from_html charref finditer html = extract_loop charref (finditer html) {}"

section \<open>Auxiliary notions for the proofs\<close>

definition normalised :: "pystr \<Rightarrow> bool" where
  \<comment> \<open>a link as the extractor emits it and the catalog keeps it: not empty, no trailing slash\<close>
  "normalised u = (u \<noteq> [] \<and> rstrip_chars (str ''/'') u = u)"

definition batch_urls :: "game list \<Rightarrow> pystr list" where
  \<comment> \<open>the links of the candidates that the loop of \<open>run_persist\<close> does not skip\<close>
  "batch_urls results = filter (\<lambda>u. u \<noteq> []) (map url_of results)"

definition catalog_urls :: "db \<Rightarrow> pystr list" where
  "catalog_urls d = map g_url (games d)"

definition touch :: "pystr \<Rightarrow> pystr \<Rightarrow> game_row \<Rightarrow> game_row" where
  "touch seen_at url r = (if g_url r = url then r\<lparr>g_last_seen := seen_at\<rparr> else r)"

definition persist_candidate ::
  "nat \<Rightarrow> pystr \<Rightarrow> bool \<Rightarrow> game \<Rightarrow> game list \<times> db \<Rightarrow> game list \<times> db" where
  \<comment> \<open>one turn of the loop of \<open>run_persist\<close> on a store that raises nothing, as a function
      of \<open>new_entries\<close> and the store\<close>
  "persist_candidate run_id run_at first_run g s =
     (let url = url_of g in
      if url = [] then s
      else if url \<in> set (catalog_urls (snd s)) then
        (fst s,
         snd (sql_insert_run_game run_id (Name g) url False
           (snd (sql_update_last_seen run_at url (snd s)))))
      else
        (if first_run then fst s else fst s @ [\<lparr>Name = Name g, Url = Some url\<rparr>],
         snd (sql_insert_run_game run_id (Name g) url (\<not> first_run)
           (snd (sql_update_last_seen run_at url
             (snd (sql_insert_or_ignore_game (Name g) url run_at (snd s))))))))"

fun run_many :: "(pystr \<times> game list) list \<Rightarrow> conn \<Rightarrow> conn" where
  \<comment> \<open>successive calls of \<open>run_persist\<close> on one connection, each with its time and its batch\<close>
  "run_many [] c = c"
| "run_many ((run_at, results) # rest) c = run_many rest (snd (run_persist run_at results c))"

definition association :: "run_game_row \<Rightarrow> nat \<times> pystr option \<times> pystr \<times> bool" where
  \<comment> \<open>a row of \<open>run_games\<close> without its own id\<close>
  "association r = (rg_run_id r, rg_name r, rg_url r, rg_is_new r)"

definition store_unique :: "conn \<Rightarrow> bool" where
  \<comment> \<open>no two rows of \<open>games\<close> share a link, in the committed store and in the open transaction\<close>
  "store_unique c =
     (distinct (catalog_urls (working c)) \<and> distinct (catalog_urls (committed c)))"

definition run_row_of :: "pystr \<Rightarrow> nat \<Rightarrow> db \<Rightarrow> run_row" where
  \<comment> \<open>the row that \<open>create_run\<close> inserts into the store\<close>
  "run_row_of run_at snapshot_count d =
     \<lparr>r_id = next_rowid (runs_seq d) (map r_id (runs d)), r_run_at = run_at,
       r_snapshot_count = snapshot_count\<rparr>"


definition free_download_head :: "pystr \<Rightarrow> bool" where
  \<comment> \<open>\<open>\s*free\s+download\<close> matches at the start of the string\<close>
  "free_download_head s =
     (let s1 = dropWhile is_space s in
      istarts_with (str ''free'') s1 \<and>
      (let s2 = drop 4 s1 in
       s2 \<noteq> [] \<and> is_space (hd s2) \<and> istarts_with (str ''download'') (dropWhile is_space s2)))"

fun has_free_download :: "pystr \<Rightarrow> bool" where
  \<comment> \<open>\<open>\s*free\s+download\<close> matches somewhere in the string\<close>
  "has_free_download [] = False"
| "has_free_download (c # cs) = (free_download_head (c # cs) \<or> has_free_download cs)"

fun single_spaced :: "pystr \<Rightarrow> bool" where
  \<comment> \<open>the only white space is the space character, and no two of them are adjacent\<close>
  "single_spaced [] = True"
| "single_spaced [c] = (is_space c \<longrightarrow> c = of_char CHR '' '')"
| "single_spaced (c # d # cs) =
     ((is_space c \<longrightarrow> c = of_char CHR '' '' \<and> \<not> is_space d) \<and> single_spaced (d # cs))"


section \<open>The run on a store that raises nothing\<close>

lemma str_inj: "str a = str b \<longleftrightarrow> a = b"
  by (simp add: str_def inj_map_eq_map inj_on_def)

lemma str_Nil: "str s = [] \<longleftrightarrow> s = []"
  by (simp add: str_def)

lemma rstrip_slash:
  "rstrip_chars (str ''/'') (u @ str ''/'') = rstrip_chars (str ''/'') u"
  "c \<noteq> of_char CHR ''/'' \<Longrightarrow> rstrip_chars (str ''/'') (u @ [c]) = u @ [c]"
  by (simp_all add: rstrip_chars_def str_def)

lemma execute_ok:
  "stmts_left c = None \<Longrightarrow>
   execute stmt c = (Inr (fst (stmt (working c))), c\<lparr>working := snd (stmt (working c))\<rparr>)"
  by (simp add: execute_def exhausted_def spend_def)

lemma commit_ok:
  "stmts_left c = None \<Longrightarrow> commit c = (Inr (), c\<lparr>committed := working c\<rparr>)"
  by (simp add: commit_def exhausted_def spend_def)

lemma select_found:
  "fst (sql_select_game_id url d) \<noteq> None \<longleftrightarrow> url \<in> set (catalog_urls d)"
  by (auto simp: sql_select_game_id_def catalog_urls_def find_None_iff)

lemma select_keeps: "snd (sql_select_game_id url d) = d"
  by (simp add: sql_select_game_id_def)

lemma run_persist_loop_Cons:
  assumes "stmts_left c = None"
  shows "run_persist_loop run_id run_at first_run (g # results) new_entries c =
     run_persist_loop run_id run_at first_run results
       (fst (persist_candidate run_id run_at first_run g (new_entries, working c)))
       (c\<lparr>working := snd (persist_candidate run_id run_at first_run g (new_entries, working c))\<rparr>)"
proof (cases "url_of g = []")
  case True
  then show ?thesis by (simp add: persist_candidate_def)
next
  case False
  then show ?thesis
    using assms select_found [of "url_of g" "working c"]
    by (cases "url_of g \<in> set (catalog_urls (working c))")
       (simp_all add: io_bind_def execute_ok update_game_last_seen_def insert_run_game_def
          insert_game_def persist_candidate_def Let_def select_keeps)
qed

lemma run_persist_loop_ok:
  "stmts_left c = None \<Longrightarrow>
   run_persist_loop run_id run_at first_run results new_entries c =
     (Inr (fst (fold (persist_candidate run_id run_at first_run) results (new_entries, working c))),
      c\<lparr>working := snd (fold (persist_candidate run_id run_at first_run) results (new_entries, working c))\<rparr>)"
proof (induction results arbitrary: new_entries c)
  case Nil
  then show ?case by (simp add: io_return_def)
next
  case (Cons g results)
  have "stmts_left (c\<lparr>working := snd (persist_candidate run_id run_at first_run g (new_entries, working c))\<rparr>) = None"
    using Cons.prems by simp
  from Cons.IH [OF this] show ?case
    by (simp add: run_persist_loop_Cons [OF Cons.prems] del: run_persist_loop.simps)
qed

lemma run_persist_ok:
  assumes "stmts_left c = None"
  shows "run_persist run_at results c =
     (let d0 = working c;
          run_id = fst (sql_insert_run run_at (length results) d0);
          first_run = (games d0 = []);
          s = fold (persist_candidate run_id run_at first_run) results
                ([], snd (sql_insert_run run_at (length results) d0))
      in (Inr (first_run, fst s), c\<lparr>committed := snd s, working := snd s\<rparr>))"
  using assms
  by (simp add: run_persist_def get_games_count_def create_run_def io_bind_def io_return_def
      execute_ok commit_ok run_persist_loop_ok sql_count_games_def Let_def)


subsection \<open>One turn of the loop\<close>

lemma touch_absent: "url \<notin> g_url ` set rows \<Longrightarrow> map (touch seen_at url) rows = rows"
  by (induction rows) (auto simp: touch_def)

lemma pc_games:
  "games (snd (persist_candidate run_id run_at first_run g s)) =
     (if url_of g = [] then games (snd s)
      else if url_of g \<in> set (catalog_urls (snd s))
      then map (touch run_at (url_of g)) (games (snd s))
      else games (snd s) @
        [\<lparr>g_id = next_rowid (games_seq (snd s)) (map g_id (games (snd s))), g_name = Name g, g_url = url_of g,
          g_first_seen = run_at, g_last_seen = run_at\<rparr>])"
proof -
  have t: "(\<lambda>r. if g_url r = url_of g then r\<lparr>g_last_seen := run_at\<rparr> else r)
        = touch run_at (url_of g)"
    by (rule ext) (simp add: touch_def)
  have a: "url_of g \<notin> g_url ` set (games (snd s)) \<Longrightarrow>
      map (touch run_at (url_of g)) (games (snd s)) = games (snd s)"
    by (rule touch_absent)
  have n: "touch run_at (url_of g) \<lparr>g_id = i, g_name = n, g_url = url_of g,
      g_first_seen = run_at, g_last_seen = run_at\<rparr> = \<lparr>g_id = i, g_name = n, g_url = url_of g,
      g_first_seen = run_at, g_last_seen = run_at\<rparr>" for i n
    by (simp add: touch_def)
  show ?thesis
    by (simp add: persist_candidate_def Let_def sql_insert_run_game_def sql_update_last_seen_def
        sql_insert_or_ignore_game_def catalog_urls_def t a n)
qed

lemma pc_runs: "runs (snd (persist_candidate run_id run_at first_run g s)) = runs (snd s)"
  by (simp add: persist_candidate_def Let_def sql_insert_run_game_def sql_update_last_seen_def
      sql_insert_or_ignore_game_def)

lemma pc_games_seq:
  "games_seq (snd (persist_candidate run_id run_at first_run g s)) =
     (if url_of g = [] \<or> url_of g \<in> set (catalog_urls (snd s)) then games_seq (snd s)
      else next_rowid (games_seq (snd s)) (map g_id (games (snd s))))"
  by (simp add: persist_candidate_def Let_def sql_insert_run_game_def sql_update_last_seen_def
      sql_insert_or_ignore_game_def catalog_urls_def)

lemma pc_run_games:
  "run_games (snd (persist_candidate run_id run_at first_run g s)) =
     (if url_of g = [] then run_games (snd s)
      else run_games (snd s) @
        [\<lparr>rg_id = next_rowid (run_games_seq (snd s)) (map rg_id (run_games (snd s))), rg_run_id = run_id,
          rg_name = Name g, rg_url = url_of g,
          rg_is_new = (url_of g \<notin> set (catalog_urls (snd s)) \<and> \<not> first_run)\<rparr>])"
  by (simp add: persist_candidate_def Let_def sql_insert_run_game_def sql_update_last_seen_def
      sql_insert_or_ignore_game_def catalog_urls_def)

lemma pc_new:
  "fst (persist_candidate run_id run_at first_run g s) =
     (if url_of g \<noteq> [] \<and> url_of g \<notin> set (catalog_urls (snd s)) \<and> \<not> first_run
      then fst s @ [\<lparr>Name = Name g, Url = Some (url_of g)\<rparr>] else fst s)"
  by (simp add: persist_candidate_def Let_def)

lemma touch_url: "g_url (touch seen_at url r) = g_url r"
  by (simp add: touch_def)

lemma pc_urls:
  "catalog_urls (snd (persist_candidate run_id run_at first_run g s)) =
     (if url_of g = [] \<or> url_of g \<in> set (catalog_urls (snd s)) then catalog_urls (snd s)
      else catalog_urls (snd s) @ [url_of g])"
  unfolding catalog_urls_def pc_games by (simp add: comp_def touch_url)

subsection \<open>The whole loop\<close>

lemma fold_runs:
  "runs (snd (fold (persist_candidate run_id run_at first_run) results s)) = runs (snd s)"
  by (induction results arbitrary: s) (simp_all add: pc_runs)

lemma fold_urls_set:
  "set (catalog_urls (snd (fold (persist_candidate run_id run_at first_run) results s))) =
     set (catalog_urls (snd s)) \<union> set (batch_urls results)"
  by (induction results arbitrary: s) (auto simp: pc_urls batch_urls_def)

lemma fold_urls_distinct:
  "distinct (catalog_urls (snd s)) \<Longrightarrow>
   distinct (catalog_urls (snd (fold (persist_candidate run_id run_at first_run) results s)))"
  by (induction results arbitrary: s) (simp_all add: pc_urls)

lemma fold_new_first_run:
  "fst (fold (persist_candidate run_id run_at True) results s) = fst s"
  by (induction results arbitrary: s) (simp_all add: pc_new)

lemma fold_associations_first_run:
  "map association (run_games (snd (fold (persist_candidate run_id run_at True) results s))) =
     map association (run_games (snd s)) @
     map (\<lambda>g. (run_id, Name g, url_of g, False)) (filter (\<lambda>g. url_of g \<noteq> []) results)"
  by (induction results arbitrary: s) (simp_all add: pc_run_games association_def)

lemma fold_new_distinct:
  "distinct (map Url (fst s)) \<Longrightarrow> set (map Url (fst s)) \<subseteq> Some ` set (catalog_urls (snd s)) \<Longrightarrow>
   distinct (map Url (fst (fold (persist_candidate run_id run_at first_run) results s)))"
proof (induction results arbitrary: s)
  case Nil
  then show ?case by simp
next
  case (Cons g results)
  let ?s = "persist_candidate run_id run_at first_run g s"
  have "distinct (map Url (fst ?s))"
    using Cons.prems by (auto simp: pc_new)
  moreover have "set (map Url (fst ?s)) \<subseteq> Some ` set (catalog_urls (snd ?s))"
    using Cons.prems by (auto simp: pc_new pc_urls)
  ultimately show ?case
    using Cons.IH [of ?s] by simp
qed

section \<open>The claims about \<open>run_persist\<close>\<close>

lemma insert_run_simps:
  "games (snd (sql_insert_run run_at n d)) = games d"
  "run_games (snd (sql_insert_run run_at n d)) = run_games d"
  "catalog_urls (snd (sql_insert_run run_at n d)) = catalog_urls d"
  "fst (sql_insert_run run_at n d) = next_rowid (runs_seq d) (map r_id (runs d))"
  "games_seq (snd (sql_insert_run run_at n d)) = games_seq d"
  "run_games_seq (snd (sql_insert_run run_at n d)) = run_games_seq d"
  by (simp_all add: sql_insert_run_def Let_def catalog_urls_def)

text \<open>
  Claim C2 (first-run detection). On a store that raises nothing, when the \<open>games\<close> table is
  empty before the run, \<open>run_persist\<close> returns \<open>first_run = True\<close> and no new entries,
  whatever the batch; the catalog then holds exactly the links of the candidates that were
  not skipped, and the run records one association for each of them, in order, every one
  with \<open>is_new = False\<close>.
\<close>

theorem first_run_detection:
  assumes "stmts_left c = None" and "games (working c) = []"
  shows "\<exists>d'. run_persist run_at results c = (Inr (True, []), c\<lparr>committed := d', working := d'\<rparr>)
      \<and> set (catalog_urls d') = set (batch_urls results)
      \<and> map association (run_games d') =
          map association (run_games (working c)) @
          map (\<lambda>g. (next_rowid (runs_seq (working c)) (map r_id (runs (working c))), Name g, url_of g, False))
            (filter (\<lambda>g. url_of g \<noteq> []) results)"
proof -
  let ?rid = "next_rowid (runs_seq (working c)) (map r_id (runs (working c)))"
  let ?s = "fold (persist_candidate ?rid run_at True) results
              ([], snd (sql_insert_run run_at (length results) (working c)))"
  have "run_persist run_at results c =
      (Inr (True, fst ?s), c\<lparr>committed := snd ?s, working := snd ?s\<rparr>)"
    using assms by (simp add: run_persist_ok Let_def insert_run_simps)
  then have "run_persist run_at results c =
      (Inr (True, []), c\<lparr>committed := snd ?s, working := snd ?s\<rparr>)"
    by (simp add: fold_new_first_run)
  moreover have "set (catalog_urls (snd ?s)) = set (batch_urls results)"
  proof -
    have "catalog_urls (working c) = []"
      using assms(2) by (simp add: catalog_urls_def)
    then show ?thesis
      by (simp add: fold_urls_set insert_run_simps)
  qed
  moreover have "map association (run_games (snd ?s)) =
      map association (run_games (working c)) @
      map (\<lambda>g. (?rid, Name g, url_of g, False)) (filter (\<lambda>g. url_of g \<noteq> []) results)"
    by (simp add: fold_associations_first_run insert_run_simps)
  ultimately show ?thesis by blast
qed

theorem first_run_detection_witness:
  "stmts_left (connect_db init_db None) = None \<and> games (working (connect_db init_db None)) = [] \<and>
   (\<exists>d'. run_persist (str ''t1'')
       [\<lparr>Name = Some (str ''Zebra''), Url = Some (str ''u/z'')\<rparr>, \<lparr>Name = Some (str ''Apple''), Url = Some (str ''u/a/'')\<rparr>,
        \<lparr>Name = Some (str ''Void''), Url = None\<rparr>]
       (connect_db init_db None)
      = (Inr (True, []), (connect_db init_db None)\<lparr>committed := d', working := d'\<rparr>)
    \<and> set (catalog_urls d') = {(str ''u/z''), (str ''u/a'')}
    \<and> map association (run_games d') =
         [(1, Some (str ''Zebra''), (str ''u/z''), False), (1, Some (str ''Apple''), (str ''u/a''), False)])"
proof -
  have h1: "stmts_left (connect_db init_db None) = None"
    by (simp add: connect_db_def)
  have h2: "games (working (connect_db init_db None)) = []"
    by (simp add: connect_db_def init_db_def)
  have u: "url_of \<lparr>Name = Some (str ''Zebra''), Url = Some (str ''u/z'')\<rparr> = (str ''u/z'')"
    "url_of \<lparr>Name = Some (str ''Apple''), Url = Some (str ''u/a/'')\<rparr> = (str ''u/a'')"
    "url_of \<lparr>Name = Some (str ''Void''), Url = None\<rparr> = []"
    by (simp_all add: url_of_def rstrip_chars_def str_def)
  show ?thesis
    using first_run_detection [OF h1 h2, of "(str ''t1'')"
        "[\<lparr>Name = Some (str ''Zebra''), Url = Some (str ''u/z'')\<rparr>, \<lparr>Name = Some (str ''Apple''), Url = Some (str ''u/a/'')\<rparr>,
          \<lparr>Name = Some (str ''Void''), Url = None\<rparr>]"] h1 h2
    by (simp add: u batch_urls_def connect_db_def init_db_def next_rowid_def insert_commute str_inj str_Nil)
qed

lemma touch_fields:
  "g_id (touch seen_at url r) = g_id r"
  "g_name (touch seen_at url r) = g_name r"
  "g_first_seen (touch seen_at url r) = g_first_seen r"
  "g_last_seen (touch seen_at url r) = (if g_url r = url then seen_at else g_last_seen r)"
  by (simp_all add: touch_def)

lemma map_touch_ids: "map g_id (map (touch seen_at url) rows) = map g_id rows"
  by (simp add: comp_def touch_fields)

lemma url_of_normalised: "Url g = Some u \<Longrightarrow> normalised u \<Longrightarrow> url_of g = u"
  by (simp add: url_of_def normalised_def)

lemma run_persist_unfold:
  assumes "stmts_left c = None"
  shows "run_persist run_at results c =
     (Inr (games (working c) = [],
           fst (fold (persist_candidate (next_rowid (runs_seq (working c)) (map r_id (runs (working c)))) run_at
                  (games (working c) = [])) results
                  ([], snd (sql_insert_run run_at (length results) (working c))))),
      c\<lparr>committed := snd (fold (persist_candidate (next_rowid (runs_seq (working c)) (map r_id (runs (working c)))) run_at
                  (games (working c) = [])) results
                  ([], snd (sql_insert_run run_at (length results) (working c)))),
        working := snd (fold (persist_candidate (next_rowid (runs_seq (working c)) (map r_id (runs (working c)))) run_at
                  (games (working c) = [])) results
                  ([], snd (sql_insert_run run_at (length results) (working c))))\<rparr>)"
  using assms by (simp add: run_persist_ok Let_def insert_run_simps)

text \<open>
  Claim C1 (delta correctness). On a store that raises nothing, let the catalog hold exactly
  the links \<open>uA\<close> and \<open>uB\<close>, and let \<open>A\<close>, \<open>B\<close>, \<open>C\<close> be candidates with the normalised
  links \<open>uA\<close>, \<open>uB\<close> and \<open>uC\<close>, the last one not in the catalog. Then \<open>run_persist\<close> on the
  batch \<open>[A, B, C]\<close> returns \<open>first_run = False\<close> and the new entries \<open>[C]\<close>, and afterwards
  the catalog holds exactly the three links, the row of \<open>C\<close> added last.
\<close>

theorem delta_correctness:
  assumes "stmts_left c = None"
    and "set (catalog_urls (working c)) = {uA, uB}"
    and "Url A = Some uA" and "Url B = Some uB" and "Url C = Some uC"
    and "normalised uA" and "normalised uB" and "normalised uC"
    and "uC \<notin> {uA, uB}"
  shows "\<exists>d'. run_persist run_at [A, B, C] c =
            (Inr (False, [C]), c\<lparr>committed := d', working := d'\<rparr>)
      \<and> catalog_urls d' = catalog_urls (working c) @ [uC]
      \<and> set (catalog_urls d') = {uA, uB, uC}
      \<and> last (games d') =
          \<lparr>g_id = next_rowid (games_seq (working c)) (map g_id (games (working c))), g_name = Name C, g_url = uC,
            g_first_seen = run_at, g_last_seen = run_at\<rparr>"
proof -
  define rid where "rid = next_rowid (runs_seq (working c)) (map r_id (runs (working c)))"
  define d0 where "d0 = snd (sql_insert_run run_at (length [A, B, C]) (working c))"
  define s1 where "s1 = persist_candidate rid run_at False A ([], d0)"
  define s2 where "s2 = persist_candidate rid run_at False B s1"
  define s3 where "s3 = persist_candidate rid run_at False C s2"
  have uA: "url_of A = uA" and uB: "url_of B = uB" and uC: "url_of C = uC"
    using assms by (simp_all add: url_of_normalised)
  have ne: "uA \<noteq> []" "uB \<noteq> []" "uC \<noteq> []"
    using assms by (simp_all add: normalised_def)
  have nonempty: "games (working c) \<noteq> []"
    using assms(2) by (auto simp: catalog_urls_def)
  have k0: "catalog_urls d0 = catalog_urls (working c)"
    and g0: "games d0 = games (working c)"
    and q0: "games_seq d0 = games_seq (working c)"
    unfolding d0_def by (simp_all only: insert_run_simps)
  have k1: "catalog_urls (snd s1) = catalog_urls (working c)"
    unfolding s1_def using assms(2) by (simp add: pc_urls uA k0)
  have k2: "catalog_urls (snd s2) = catalog_urls (working c)"
    unfolding s2_def using assms(2) by (simp add: pc_urls uB k1)
  have k3: "catalog_urls (snd s3) = catalog_urls (working c) @ [uC]"
    unfolding s3_def using assms(2,9) ne by (simp add: pc_urls uC k2)
  have n1: "fst s1 = []"
    unfolding s1_def using assms(2) by (simp add: pc_new uA k0)
  have n2: "fst s2 = []"
    unfolding s2_def using assms(2) by (simp add: pc_new uB k1 n1)
  have n3: "fst s3 = [C]"
    unfolding s3_def using assms(2,5,9) ne by (simp add: pc_new uC k2 n2)
  have g1: "map g_id (games (snd s1)) = map g_id (games (working c))"
    unfolding s1_def using assms(2) ne by (simp add: pc_games uA k0 g0 touch_fields)
  have g2: "map g_id (games (snd s2)) = map g_id (games (working c))"
    unfolding s2_def using assms(2) ne g1 by (simp add: pc_games uB k1 map_touch_ids del: map_map)
  have q1: "games_seq (snd s1) = games_seq (working c)"
    unfolding s1_def using assms(2) by (simp add: pc_games_seq uA k0 q0)
  have q2: "games_seq (snd s2) = games_seq (working c)"
    unfolding s2_def using assms(2) by (simp add: pc_games_seq uB k1 q1)
  have l3: "last (games (snd s3)) =
      \<lparr>g_id = next_rowid (games_seq (working c)) (map g_id (games (working c))), g_name = Name C, g_url = uC,
        g_first_seen = run_at, g_last_seen = run_at\<rparr>"
    unfolding s3_def using assms(2,9) ne by (simp add: pc_games uC k2 g2 q2)
  have "fold (persist_candidate rid run_at False) [A, B, C] ([], d0) = s3"
    by (simp add: s1_def s2_def s3_def)
  then have "run_persist run_at [A, B, C] c =
      (Inr (False, fst s3), c\<lparr>committed := snd s3, working := snd s3\<rparr>)"
    unfolding run_persist_unfold [OF assms(1)] using nonempty
    by (simp only: rid_def d0_def)
  then have "run_persist run_at [A, B, C] c =
      (Inr (False, [C]), c\<lparr>committed := snd s3, working := snd s3\<rparr>)"
    by (simp only: n3)
  moreover have "set (catalog_urls (snd s3)) = {uA, uB, uC}"
    using assms(2) by (auto simp: k3)
  ultimately show ?thesis
    using k3 l3 by blast
qed


theorem delta_correctness_witness:
  "\<exists>d'. run_persist (str ''t2'')
       [\<lparr>Name = Some (str ''Apple''), Url = Some (str ''u/a'')\<rparr>, \<lparr>Name = Some (str ''Beta''), Url = Some (str ''u/b'')\<rparr>,
        \<lparr>Name = Some (str ''Gamma''), Url = Some (str ''u/c'')\<rparr>]
       (connect_db
         \<lparr>games =
            [\<lparr>g_id = 1, g_name = Some (str ''Apple''), g_url = (str ''u/a''), g_first_seen = (str ''t1''),
              g_last_seen = (str ''t1'')\<rparr>,
             \<lparr>g_id = 2, g_name = Some (str ''Beta''), g_url = (str ''u/b''), g_first_seen = (str ''t1''),
              g_last_seen = (str ''t1'')\<rparr>],
          runs = [\<lparr>r_id = 1, r_run_at = (str ''t1''), r_snapshot_count = 2\<rparr>],
          run_games = [], games_seq = 2, runs_seq = 1, run_games_seq = 0\<rparr> None)
     = (Inr (False, [\<lparr>Name = Some (str ''Gamma''), Url = Some (str ''u/c'')\<rparr>]),
        \<lparr>committed = d', working = d', stmts_left = None\<rparr>)
   \<and> catalog_urls d' = [(str ''u/a''), (str ''u/b''), (str ''u/c'')]
   \<and> last (games d') =
        \<lparr>g_id = 3, g_name = Some (str ''Gamma''), g_url = (str ''u/c''), g_first_seen = (str ''t2''),
          g_last_seen = (str ''t2'')\<rparr>"
proof -
  let ?d = "\<lparr>games =
            [\<lparr>g_id = 1, g_name = Some (str ''Apple''), g_url = (str ''u/a''), g_first_seen = (str ''t1''),
              g_last_seen = (str ''t1'')\<rparr>,
             \<lparr>g_id = 2, g_name = Some (str ''Beta''), g_url = (str ''u/b''), g_first_seen = (str ''t1''),
              g_last_seen = (str ''t1'')\<rparr>],
          runs = [\<lparr>r_id = 1, r_run_at = (str ''t1''), r_snapshot_count = 2\<rparr>],
          run_games = [], games_seq = 2, runs_seq = 1, run_games_seq = 0\<rparr>"
  have h1: "stmts_left (connect_db ?d None) = None"
    by (simp add: connect_db_def)
  have h2: "set (catalog_urls (working (connect_db ?d None))) = {(str ''u/a''), (str ''u/b'')}"
    by (simp add: connect_db_def catalog_urls_def)
  have h3: "normalised (str ''u/a'')" "normalised (str ''u/b'')" "normalised (str ''u/c'')"
    by (simp_all add: normalised_def rstrip_chars_def str_def)
  have h4: "(str ''u/c'') \<notin> {(str ''u/a''), (str ''u/b'')}"
    by (simp add: str_inj)
  from delta_correctness [where c = "connect_db ?d None" and uA = "(str ''u/a'')" and uB = "(str ''u/b'')"
        and uC = "(str ''u/c'')" and A = "\<lparr>Name = Some (str ''Apple''), Url = Some (str ''u/a'')\<rparr>"
        and B = "\<lparr>Name = Some (str ''Beta''), Url = Some (str ''u/b'')\<rparr>"
        and C = "\<lparr>Name = Some (str ''Gamma''), Url = Some (str ''u/c'')\<rparr>" and run_at = "(str ''t2'')",
        OF h1 h2 _ _ _ h3 h4]
  obtain d' where r: "run_persist (str ''t2'')
       [\<lparr>Name = Some (str ''Apple''), Url = Some (str ''u/a'')\<rparr>, \<lparr>Name = Some (str ''Beta''), Url = Some (str ''u/b'')\<rparr>,
        \<lparr>Name = Some (str ''Gamma''), Url = Some (str ''u/c'')\<rparr>] (connect_db ?d None)
       = (Inr (False, [\<lparr>Name = Some (str ''Gamma''), Url = Some (str ''u/c'')\<rparr>]),
          (connect_db ?d None)\<lparr>committed := d', working := d'\<rparr>)"
    and k: "catalog_urls d' = catalog_urls (working (connect_db ?d None)) @ [(str ''u/c'')]"
    and l: "last (games d') =
        \<lparr>g_id = next_rowid (games_seq (working (connect_db ?d None))) (map g_id (games (working (connect_db ?d None)))),
          g_name = Name \<lparr>Name = Some (str ''Gamma''), Url = Some (str ''u/c'')\<rparr>, g_url = (str ''u/c''),
          g_first_seen = (str ''t2''), g_last_seen = (str ''t2'')\<rparr>"
    by auto
  have "(connect_db ?d None)\<lparr>committed := d', working := d'\<rparr> =
      \<lparr>committed = d', working = d', stmts_left = None\<rparr>"
    by (simp add: connect_db_def)
  with r have "run_persist (str ''t2'')
       [\<lparr>Name = Some (str ''Apple''), Url = Some (str ''u/a'')\<rparr>, \<lparr>Name = Some (str ''Beta''), Url = Some (str ''u/b'')\<rparr>,
        \<lparr>Name = Some (str ''Gamma''), Url = Some (str ''u/c'')\<rparr>] (connect_db ?d None)
       = (Inr (False, [\<lparr>Name = Some (str ''Gamma''), Url = Some (str ''u/c'')\<rparr>]),
          \<lparr>committed = d', working = d', stmts_left = None\<rparr>)"
    by simp
  moreover have "catalog_urls d' = [(str ''u/a''), (str ''u/b''), (str ''u/c'')]"
    using k by (simp add: connect_db_def catalog_urls_def)
  moreover have "last (games d') =
        \<lparr>g_id = 3, g_name = Some (str ''Gamma''), g_url = (str ''u/c''), g_first_seen = (str ''t2''),
          g_last_seen = (str ''t2'')\<rparr>"
    using l by (simp add: connect_db_def next_rowid_def)
  ultimately show ?thesis
    by blast
qed

text \<open>
  Claim C9 (frame on re-observation). When the loop of \<open>run_persist\<close> processes a candidate
  whose link is already in the catalog, only \<open>last_seen\<close> of the rows with that link changes:
  no row is added, every row keeps its id, name, link and \<open>first_seen\<close>, every row with
  another link is unchanged, the \<open>runs\<close> table and \<open>new_entries\<close> are unchanged, and one
  association with \<open>is_new = False\<close> is recorded.
\<close>

theorem reobservation_frame:
  assumes "stmts_left c = None"
    and "url_of g \<noteq> []"
    and "url_of g \<in> set (catalog_urls (working c))"
  shows "\<exists>d'. run_persist_loop run_id run_at first_run [g] new_entries c =
            (Inr new_entries, c\<lparr>working := d'\<rparr>)
      \<and> games d' =
          map (\<lambda>r. if g_url r = url_of g then r\<lparr>g_last_seen := run_at\<rparr> else r) (games (working c))
      \<and> length (games d') = length (games (working c))
      \<and> (\<forall>i < length (games (working c)).
            g_id (games d' ! i) = g_id (games (working c) ! i)
          \<and> g_name (games d' ! i) = g_name (games (working c) ! i)
          \<and> g_url (games d' ! i) = g_url (games (working c) ! i)
          \<and> g_first_seen (games d' ! i) = g_first_seen (games (working c) ! i)
          \<and> (g_url (games (working c) ! i) \<noteq> url_of g \<longrightarrow> games d' ! i = games (working c) ! i))
      \<and> runs d' = runs (working c)
      \<and> map association (run_games d') =
          map association (run_games (working c)) @ [(run_id, Name g, url_of g, False)]"
proof -
  let ?s = "persist_candidate run_id run_at first_run g (new_entries, working c)"
  have t: "(\<lambda>r. if g_url r = url_of g then r\<lparr>g_last_seen := run_at\<rparr> else r)
        = touch run_at (url_of g)"
    by (rule ext) (simp add: touch_def)
  have "run_persist_loop run_id run_at first_run [g] new_entries c =
      (Inr (fst ?s), c\<lparr>working := snd ?s\<rparr>)"
    using assms(1) by (simp add: run_persist_loop_ok del: run_persist_loop.simps)
  moreover have "fst ?s = new_entries"
    using assms by (simp add: pc_new)
  moreover have g: "games (snd ?s) = map (touch run_at (url_of g)) (games (working c))"
    using assms by (simp add: pc_games)
  moreover have "runs (snd ?s) = runs (working c)"
    by (simp add: pc_runs)
  moreover have "map association (run_games (snd ?s)) =
      map association (run_games (working c)) @ [(run_id, Name g, url_of g, False)]"
    using assms by (simp add: pc_run_games association_def)
  moreover have "\<forall>i < length (games (working c)).
            g_id (games (snd ?s) ! i) = g_id (games (working c) ! i)
          \<and> g_name (games (snd ?s) ! i) = g_name (games (working c) ! i)
          \<and> g_url (games (snd ?s) ! i) = g_url (games (working c) ! i)
          \<and> g_first_seen (games (snd ?s) ! i) = g_first_seen (games (working c) ! i)
          \<and> (g_url (games (working c) ! i) \<noteq> url_of g \<longrightarrow>
               games (snd ?s) ! i = games (working c) ! i)"
    by (simp add: g touch_fields touch_url touch_def)
  ultimately show ?thesis
    unfolding t by (intro exI [of _ "snd ?s"]) simp
qed


theorem reobservation_frame_witness:
  "\<exists>d'. run_persist_loop 2 (str ''t2'') False [\<lparr>Name = Some (str ''Apple II''), Url = Some (str ''u/a/'')\<rparr>] []
       (connect_db
         \<lparr>games =
            [\<lparr>g_id = 1, g_name = Some (str ''Apple''), g_url = (str ''u/a''), g_first_seen = (str ''t1''),
              g_last_seen = (str ''t1'')\<rparr>,
             \<lparr>g_id = 2, g_name = Some (str ''Beta''), g_url = (str ''u/b''), g_first_seen = (str ''t1''),
              g_last_seen = (str ''t1'')\<rparr>],
          runs = [], run_games = [], games_seq = 2, runs_seq = 0, run_games_seq = 0\<rparr> None)
     = (Inr [], \<lparr>committed =
         \<lparr>games =
            [\<lparr>g_id = 1, g_name = Some (str ''Apple''), g_url = (str ''u/a''), g_first_seen = (str ''t1''),
              g_last_seen = (str ''t1'')\<rparr>,
             \<lparr>g_id = 2, g_name = Some (str ''Beta''), g_url = (str ''u/b''), g_first_seen = (str ''t1''),
              g_last_seen = (str ''t1'')\<rparr>],
          runs = [], run_games = [], games_seq = 2, runs_seq = 0, run_games_seq = 0\<rparr>, working = d', stmts_left = None\<rparr>)
   \<and> games d' =
        [\<lparr>g_id = 1, g_name = Some (str ''Apple''), g_url = (str ''u/a''), g_first_seen = (str ''t1''),
          g_last_seen = (str ''t2'')\<rparr>,
         \<lparr>g_id = 2, g_name = Some (str ''Beta''), g_url = (str ''u/b''), g_first_seen = (str ''t1''),
          g_last_seen = (str ''t1'')\<rparr>]
   \<and> map association (run_games d') = [(2, Some (str ''Apple II''), (str ''u/a''), False)]"
proof -
  let ?d = "\<lparr>games =
            [\<lparr>g_id = 1, g_name = Some (str ''Apple''), g_url = (str ''u/a''), g_first_seen = (str ''t1''),
              g_last_seen = (str ''t1'')\<rparr>,
             \<lparr>g_id = 2, g_name = Some (str ''Beta''), g_url = (str ''u/b''), g_first_seen = (str ''t1''),
              g_last_seen = (str ''t1'')\<rparr>],
          runs = [], run_games = [], games_seq = 2, runs_seq = 0, run_games_seq = 0\<rparr>"
  let ?g = "\<lparr>Name = Some (str ''Apple II''), Url = Some (str ''u/a/'')\<rparr>"
  have u: "url_of ?g = (str ''u/a'')"
    by (simp add: url_of_def rstrip_chars_def str_def)
  have h1: "stmts_left (connect_db ?d None) = None"
    by (simp add: connect_db_def)
  have h2: "url_of ?g \<noteq> []"
    by (simp add: u str_inj str_Nil)
  have h3: "url_of ?g \<in> set (catalog_urls (working (connect_db ?d None)))"
    by (simp add: u connect_db_def catalog_urls_def str_inj str_Nil)
  from reobservation_frame [OF h1 h2 h3, of 2 "(str ''t2'')" False "[]"] show ?thesis
  proof (elim exE conjE)
    fix d'
    assume r: "run_persist_loop 2 (str ''t2'') False [?g] [] (connect_db ?d None) =
        (Inr [], (connect_db ?d None)\<lparr>working := d'\<rparr>)"
      and g: "games d' =
        map (\<lambda>r. if g_url r = url_of ?g then r\<lparr>g_last_seen := (str ''t2'')\<rparr> else r)
          (games (working (connect_db ?d None)))"
      and a: "map association (run_games d') =
        map association (run_games (working (connect_db ?d None))) @
        [(2, Name ?g, url_of ?g, False)]"
    have "(connect_db ?d None)\<lparr>working := d'\<rparr> =
        \<lparr>committed = ?d, working = d', stmts_left = None\<rparr>"
      by (simp add: connect_db_def)
    with r have r': "run_persist_loop 2 (str ''t2'') False [?g] [] (connect_db ?d None) =
        (Inr [], \<lparr>committed = ?d, working = d', stmts_left = None\<rparr>)"
      by simp
    have g': "games d' =
        [\<lparr>g_id = 1, g_name = Some (str ''Apple''), g_url = (str ''u/a''), g_first_seen = (str ''t1''),
          g_last_seen = (str ''t2'')\<rparr>,
         \<lparr>g_id = 2, g_name = Some (str ''Beta''), g_url = (str ''u/b''), g_first_seen = (str ''t1''),
          g_last_seen = (str ''t1'')\<rparr>]"
      using g by (simp add: u connect_db_def str_inj str_Nil)
    have a': "map association (run_games d') = [(2, Some (str ''Apple II''), (str ''u/a''), False)]"
      using a by (simp add: u connect_db_def str_inj str_Nil)
    show ?thesis
      by (intro exI [of _ d'] conjI) (fact r' g' a')+
  qed
qed

lemma fold_run_games_ext:
  "\<exists>ext. run_games (snd (fold (persist_candidate run_id run_at first_run) results s)) =
           run_games (snd s) @ ext \<and> length ext = length (batch_urls results)"
proof (induction results arbitrary: s)
  case Nil
  then show ?case by (simp add: batch_urls_def)
next
  case (Cons g results)
  let ?s = "persist_candidate run_id run_at first_run g s"
  from Cons.IH [of ?s] obtain ext where
    e: "run_games (snd (fold (persist_candidate run_id run_at first_run) results ?s)) =
        run_games (snd ?s) @ ext" and l: "length ext = length (batch_urls results)"
    by blast
  show ?case
  proof (cases "url_of g = []")
    case True
    with e l show ?thesis by (simp add: pc_run_games batch_urls_def)
  next
    case False
    with e l show ?thesis by (simp add: pc_run_games batch_urls_def)
  qed
qed

lemma fold_games_count:
  "length (games (snd (fold (persist_candidate run_id run_at first_run) results s))) =
     length (games (snd s)) + card (set (batch_urls results) - set (catalog_urls (snd s)))"
proof (induction results arbitrary: s)
  case Nil
  then show ?case by (simp add: batch_urls_def)
next
  case (Cons g results)
  let ?s = "persist_candidate run_id run_at first_run g s"
  let ?K = "set (catalog_urls (snd s))"
  let ?B = "set (batch_urls results)"
  have step: "length (games (snd (fold (persist_candidate run_id run_at first_run) (g # results) s)))
      = length (games (snd ?s)) + card (?B - set (catalog_urls (snd ?s)))"
    using Cons.IH [of ?s] by simp
  show ?case
  proof (cases "url_of g = [] \<or> url_of g \<in> ?K")
    case True
    then have "set (batch_urls (g # results)) - ?K = ?B - ?K"
      by (auto simp: batch_urls_def)
    moreover from True have "catalog_urls (snd ?s) = catalog_urls (snd s)"
      by (auto simp: pc_urls)
    moreover from True have "length (games (snd ?s)) = length (games (snd s))"
      by (auto simp: pc_games)
    ultimately show ?thesis using step by simp
  next
    case False
    then have "set (batch_urls (g # results)) - ?K = insert (url_of g) (?B - (?K \<union> {url_of g}))"
      by (auto simp: batch_urls_def)
    moreover have "url_of g \<notin> ?B - (?K \<union> {url_of g})" by simp
    moreover have "finite (?B - (?K \<union> {url_of g}))" by simp
    ultimately have "card (set (batch_urls (g # results)) - ?K) =
        Suc (card (?B - (?K \<union> {url_of g})))"
      using card_insert_disjoint [of "?B - (?K \<union> {url_of g})" "url_of g"] by presburger
    moreover from False have "set (catalog_urls (snd ?s)) = ?K \<union> {url_of g}"
      by (auto simp: pc_urls)
    moreover from False have "length (games (snd ?s)) = Suc (length (games (snd s)))"
      by (auto simp: pc_games)
    ultimately show ?thesis using step by simp
  qed
qed

text \<open>
  Claim C10 (duplicates within one batch). On a store that raises nothing, let the batch hold
  a candidate \<open>g\<close> after a candidate \<open>g0\<close> with the same link once trailing slashes are
  trimmed. Then the new entries that \<open>run_persist\<close> returns have pairwise distinct links, the
  association recorded for \<open>g\<close> has \<open>is_new = False\<close>, and the run adds one catalog row for
  each distinct link of the batch that the catalog did not hold, so the duplicate adds none.
\<close>

theorem duplicate_in_batch:
  assumes "stmts_left c = None"
    and "g0 \<in> set xs" and "url_of g0 = url_of g" and "url_of g \<noteq> []"
  shows "\<exists>first_run new_entries d'.
        run_persist run_at (xs @ g # ys) c =
          (Inr (first_run, new_entries), c\<lparr>committed := d', working := d'\<rparr>)
      \<and> distinct (map Url new_entries)
      \<and> association (run_games d' ! (length (run_games (working c)) + length (batch_urls xs))) =
          (next_rowid (runs_seq (working c)) (map r_id (runs (working c))), Name g, url_of g, False)
      \<and> length (games d') =
          length (games (working c)) +
          card (set (batch_urls (xs @ g # ys)) - set (catalog_urls (working c)))"
proof -
  define rid where "rid = next_rowid (runs_seq (working c)) (map r_id (runs (working c)))"
  define fr where "fr = (games (working c) = [])"
  define d0 where "d0 = snd (sql_insert_run run_at (length (xs @ g # ys)) (working c))"
  define s1 where "s1 = fold (persist_candidate rid run_at fr) xs ([], d0)"
  define s2 where "s2 = persist_candidate rid run_at fr g s1"
  define s3 where "s3 = fold (persist_candidate rid run_at fr) ys s2"
  have whole: "fold (persist_candidate rid run_at fr) (xs @ g # ys) ([], d0) = s3"
    by (simp add: s1_def s2_def s3_def)
  have run: "run_persist run_at (xs @ g # ys) c =
      (Inr (fr, fst s3), c\<lparr>committed := snd s3, working := snd s3\<rparr>)"
    unfolding run_persist_unfold [OF assms(1)] whole [symmetric]
    by (simp only: rid_def fr_def d0_def)
  have d0: "run_games d0 = run_games (working c)" "games d0 = games (working c)"
    "catalog_urls d0 = catalog_urls (working c)"
    unfolding d0_def by (simp_all only: insert_run_simps)
  have "distinct (map Url (fst s3))"
    unfolding whole [symmetric] by (rule fold_new_distinct) simp_all
  moreover have "association (run_games (snd s3) ! (length (run_games (working c)) + length (batch_urls xs)))
      = (rid, Name g, url_of g, False)"
  proof -
    obtain e1 where e1: "run_games (snd s1) = run_games d0 @ e1"
        and l1: "length e1 = length (batch_urls xs)"
      using fold_run_games_ext [of rid run_at fr xs "([], d0)"] unfolding s1_def by auto
    obtain e3 where e3: "run_games (snd s3) = run_games (snd s2) @ e3"
      using fold_run_games_ext [of rid run_at fr ys s2] unfolding s3_def by auto
    have "url_of g0 \<in> url_of ` set xs"
      using assms(2) by (rule imageI)
    then have "url_of g \<in> set (batch_urls xs)"
      using assms(3,4) by (simp add: batch_urls_def)
    then have known: "url_of g \<in> set (catalog_urls (snd s1))"
      unfolding s1_def by (simp add: fold_urls_set)
    have "run_games (snd s2) = run_games (snd s1) @
        [\<lparr>rg_id = next_rowid (run_games_seq (snd s1)) (map rg_id (run_games (snd s1))), rg_run_id = rid,
          rg_name = Name g, rg_url = url_of g, rg_is_new = False\<rparr>]"
      unfolding s2_def using assms(4) known by (simp add: pc_run_games)
    with e1 e3 l1 d0(1) show ?thesis
      by (simp add: nth_append association_def)
  qed
  moreover have "length (games (snd s3)) =
      length (games (working c)) +
      card (set (batch_urls (xs @ g # ys)) - set (catalog_urls (working c)))"
    unfolding whole [symmetric] by (simp only: fold_games_count snd_conv d0)
  ultimately show ?thesis
    unfolding rid_def [symmetric] using run by blast
qed


theorem duplicate_in_batch_witness:
  "\<exists>first_run new_entries d'.
      run_persist (str ''t2'')
        ([\<lparr>Name = Some (str ''Beta''), Url = Some (str ''u/b'')\<rparr>] @
         \<lparr>Name = Some (str ''Beta again''), Url = Some (str ''u/b/'')\<rparr> #
         [\<lparr>Name = Some (str ''Gamma''), Url = Some (str ''u/c'')\<rparr>])
        (connect_db
          \<lparr>games =
             [\<lparr>g_id = 1, g_name = Some (str ''Apple''), g_url = (str ''u/a''), g_first_seen = (str ''t1''),
               g_last_seen = (str ''t1'')\<rparr>],
           runs = [\<lparr>r_id = 1, r_run_at = (str ''t1''), r_snapshot_count = 1\<rparr>],
           run_games = [], games_seq = 1, runs_seq = 1, run_games_seq = 0\<rparr> None)
      = (Inr (first_run, new_entries), \<lparr>committed = d', working = d', stmts_left = None\<rparr>)
    \<and> distinct (map Url new_entries)
    \<and> association (run_games d' ! 1) = (2, Some (str ''Beta again''), (str ''u/b''), False)
    \<and> length (games d') = 3"
proof -
  let ?d = "\<lparr>games =
             [\<lparr>g_id = 1, g_name = Some (str ''Apple''), g_url = (str ''u/a''), g_first_seen = (str ''t1''),
               g_last_seen = (str ''t1'')\<rparr>],
           runs = [\<lparr>r_id = 1, r_run_at = (str ''t1''), r_snapshot_count = 1\<rparr>],
           run_games = [], games_seq = 1, runs_seq = 1, run_games_seq = 0\<rparr>"
  let ?b = "\<lparr>Name = Some (str ''Beta''), Url = Some (str ''u/b'')\<rparr>"
  let ?g = "\<lparr>Name = Some (str ''Beta again''), Url = Some (str ''u/b/'')\<rparr>"
  let ?c = "\<lparr>Name = Some (str ''Gamma''), Url = Some (str ''u/c'')\<rparr>"
  have u: "url_of ?b = (str ''u/b'')" "url_of ?g = (str ''u/b'')" "url_of ?c = (str ''u/c'')"
    by (simp_all add: url_of_def rstrip_chars_def str_def)
  have h1: "stmts_left (connect_db ?d None) = None"
    by (simp add: connect_db_def)
  have h2: "?b \<in> set [?b]"
    by simp
  have h3: "url_of ?b = url_of ?g"
    by (simp add: u str_inj str_Nil)
  have h4: "url_of ?g \<noteq> []"
    by (simp add: u str_inj str_Nil)
  from duplicate_in_batch [OF h1 h2 h3 h4, of "(str ''t2'')" "[?c]"] show ?thesis
  proof (elim exE conjE)
    fix first_run new_entries d'
    assume r: "run_persist (str ''t2'') ([?b] @ ?g # [?c]) (connect_db ?d None) =
        (Inr (first_run, new_entries), (connect_db ?d None)\<lparr>committed := d', working := d'\<rparr>)"
      and n: "distinct (map Url new_entries)"
      and a: "association (run_games d' !
          (length (run_games (working (connect_db ?d None))) + length (batch_urls [?b]))) =
          (next_rowid (runs_seq (working (connect_db ?d None))) (map r_id (runs (working (connect_db ?d None)))), Name ?g, url_of ?g, False)"
      and l: "length (games d') =
          length (games (working (connect_db ?d None))) +
          card (set (batch_urls ([?b] @ ?g # [?c])) -
            set (catalog_urls (working (connect_db ?d None))))"
    have "(connect_db ?d None)\<lparr>committed := d', working := d'\<rparr> =
        \<lparr>committed = d', working = d', stmts_left = None\<rparr>"
      by (simp add: connect_db_def)
    with r have r': "run_persist (str ''t2'') ([?b] @ ?g # [?c]) (connect_db ?d None) =
        (Inr (first_run, new_entries), \<lparr>committed = d', working = d', stmts_left = None\<rparr>)"
      by simp
    have a': "association (run_games d' ! 1) = (2, Some (str ''Beta again''), (str ''u/b''), False)"
      using a by (simp add: u connect_db_def batch_urls_def next_rowid_def str_inj str_Nil)
    have "set (batch_urls ([?b] @ ?g # [?c])) - set (catalog_urls (working (connect_db ?d None)))
        = {(str ''u/b''), (str ''u/c'')}"
      by (auto simp: u connect_db_def batch_urls_def catalog_urls_def str_inj str_Nil)
    with l have l': "length (games d') = 3"
      by (simp add: connect_db_def str_inj)
    show ?thesis
      by (intro exI [of _ first_run] exI [of _ new_entries] exI [of _ d'] conjI)
         (fact r' n a' l')+
  qed
qed


section \<open>The run on a store that may raise\<close>

lemma execute_unique:
  assumes "\<And>d. distinct (catalog_urls d) \<Longrightarrow> distinct (catalog_urls (snd (stmt d)))"
    and "store_unique c"
  shows "store_unique (snd (execute stmt c))"
  using assms by (simp add: execute_def store_unique_def spend_def)

lemma commit_unique: "store_unique c \<Longrightarrow> store_unique (snd (commit c))"
  by (simp add: commit_def store_unique_def spend_def)

lemma io_return_unique: "store_unique c \<Longrightarrow> store_unique (snd (io_return a c))"
  by (simp add: io_return_def)

lemma io_bind_unique:
  assumes "store_unique c"
    and "\<And>c. store_unique c \<Longrightarrow> store_unique (snd (m c))"
    and "\<And>a c. store_unique c \<Longrightarrow> store_unique (snd (f a c))"
  shows "store_unique (snd (io_bind m f c))"
proof (cases "m c")
  case (Pair r c')
  then have c': "store_unique c'"
    using assms(1,2) by (metis snd_conv)
  show ?thesis
  proof (cases r)
    case (Inl e)
    with Pair c' show ?thesis by (simp add: io_bind_def)
  next
    case (Inr a)
    with Pair assms(3) [OF c', of a] show ?thesis by (simp add: io_bind_def)
  qed
qed

lemma sql_unique:
  "distinct (catalog_urls d) \<Longrightarrow> distinct (catalog_urls (snd (sql_count_games d)))"
  "distinct (catalog_urls d) \<Longrightarrow> distinct (catalog_urls (snd (sql_insert_run run_at n d)))"
  "distinct (catalog_urls d) \<Longrightarrow>
     distinct (catalog_urls (snd (sql_insert_run_game run_id name url is_new d)))"
  "distinct (catalog_urls d) \<Longrightarrow>
     distinct (catalog_urls (snd (sql_insert_or_ignore_game name url seen_at d)))"
  "distinct (catalog_urls d) \<Longrightarrow> distinct (catalog_urls (snd (sql_update_last_seen seen_at url d)))"
  "distinct (catalog_urls d) \<Longrightarrow> distinct (catalog_urls (snd (sql_select_game_id url d)))"
  by (simp_all add: sql_count_games_def sql_insert_run_def sql_insert_run_game_def
      sql_insert_or_ignore_game_def sql_update_last_seen_def sql_select_game_id_def
      catalog_urls_def Let_def comp_def if_distrib [of g_url] cong: if_cong)

lemma python_unique:
  "store_unique c \<Longrightarrow> store_unique (snd (get_games_count c))"
  "store_unique c \<Longrightarrow> store_unique (snd (create_run run_at n c))"
  "store_unique c \<Longrightarrow> store_unique (snd (insert_run_game run_id name url is_new c))"
  "store_unique c \<Longrightarrow> store_unique (snd (insert_game name url seen_at c))"
  "store_unique c \<Longrightarrow> store_unique (snd (update_game_last_seen url seen_at c))"
  unfolding get_games_count_def create_run_def insert_run_game_def insert_game_def
    update_game_last_seen_def
  by (intro io_bind_unique execute_unique commit_unique io_return_unique sql_unique; assumption)+

lemma if_unique:
  assumes "P \<Longrightarrow> store_unique (snd (m c))" and "\<not> P \<Longrightarrow> store_unique (snd (n c))"
  shows "store_unique (snd ((if P then m else n) c))"
  using assms by simp

lemma run_persist_loop_unique:
  "store_unique c \<Longrightarrow>
   store_unique (snd (run_persist_loop run_id run_at first_run results new_entries c))"
proof (induction results arbitrary: new_entries c)
  case Nil
  then show ?case by (simp add: io_return_unique)
next
  case (Cons g results)
  show ?case
  proof (cases "url_of g = []")
    case True
    with Cons show ?thesis by simp
  next
    case False
    have "store_unique (snd (io_bind (execute (sql_select_game_id (url_of g)))
        (\<lambda>existing.
          if existing \<noteq> None then
            io_bind (update_game_last_seen (url_of g) run_at) (\<lambda>_.
            io_bind (insert_run_game run_id (Name g) (url_of g) False) (\<lambda>_.
            run_persist_loop run_id run_at first_run results new_entries))
          else
            io_bind (insert_game (Name g) (url_of g) run_at) (\<lambda>_.
            io_bind (insert_run_game run_id (Name g) (url_of g) (if first_run then False else True)) (\<lambda>_.
            run_persist_loop run_id run_at first_run results
              (if (if first_run then False else True)
               then new_entries @ [\<lparr>Name = Name g, Url = Some (url_of g)\<rparr>]
               else new_entries)))) c))"
      by (intro io_bind_unique if_unique execute_unique sql_unique python_unique Cons.IH
          Cons.prems; assumption)
    with False show ?thesis
      by (simp only: run_persist_loop.simps Let_def if_False)
  qed
qed

lemma run_persist_unique: "store_unique c \<Longrightarrow> store_unique (snd (run_persist run_at results c))"
  unfolding run_persist_def Let_def
  by (intro io_bind_unique python_unique run_persist_loop_unique commit_unique io_return_unique;
      assumption)

lemma run_many_unique: "store_unique c \<Longrightarrow> store_unique (run_many rs c)"
  by (induction rs arbitrary: c) (auto simp: run_persist_unique)


lemma run_persist_urls:
  assumes "stmts_left c = None"
  shows "stmts_left (snd (run_persist run_at results c)) = None"
    and "committed (snd (run_persist run_at results c)) = working (snd (run_persist run_at results c))"
    and "set (catalog_urls (working (snd (run_persist run_at results c)))) =
         set (catalog_urls (working c)) \<union> set (batch_urls results)"
  unfolding run_persist_unfold [OF assms]
  by (simp_all add: assms fold_urls_set insert_run_simps)

lemma run_many_urls:
  assumes "stmts_left c = None" and "committed c = working c"
  shows "stmts_left (run_many rs c) = None \<and> committed (run_many rs c) = working (run_many rs c) \<and>
     set (catalog_urls (working (run_many rs c))) =
       set (catalog_urls (working c)) \<union> set (concat (map (\<lambda>r. batch_urls (snd r)) rs))"
  using assms
proof (induction rs arbitrary: c)
  case Nil
  then show ?case by simp
next
  case (Cons r rs)
  obtain run_at results where r: "r = (run_at, results)"
    by (cases r)
  let ?c = "snd (run_persist run_at results c)"
  from Cons.IH [of ?c] run_persist_urls [OF Cons.prems(1), of run_at results]
  show ?case
    by (simp add: r Un_assoc)
qed

text \<open>
  Claim C5 (catalog uniqueness). After any sequence of calls of \<open>run_persist\<close> on a store that
  \<open>init_db\<close> created, whatever the batches and whether or not the store raises at some
  statement, no two rows of \<open>games\<close> share a link, in the committed store and in the
  connection's view; and when the store raises nothing, the committed catalog holds a row
  for exactly the links of the candidates that were not skipped.
\<close>

theorem catalog_unique:
  "distinct (catalog_urls (committed (run_many rs (connect_db init_db k)))) \<and>
   distinct (catalog_urls (working (run_many rs (connect_db init_db k)))) \<and>
   set (catalog_urls (committed (run_many rs (connect_db init_db None)))) =
     set (concat (map (\<lambda>r. batch_urls (snd r)) rs))"
proof -
  have "store_unique (connect_db init_db k)"
    by (simp add: store_unique_def connect_db_def init_db_def catalog_urls_def)
  then have "store_unique (run_many rs (connect_db init_db k))"
    by (rule run_many_unique)
  moreover have "set (catalog_urls (committed (run_many rs (connect_db init_db None)))) =
     set (concat (map (\<lambda>r. batch_urls (snd r)) rs))"
    using run_many_urls [of "connect_db init_db None" rs]
    by (simp add: connect_db_def init_db_def catalog_urls_def)
  ultimately show ?thesis
    by (simp add: store_unique_def)
qed

theorem catalog_unique_witness:
  "catalog_urls (committed (run_many
      [((str ''t1''), [\<lparr>Name = Some (str ''Apple''), Url = Some (str ''u/a'')\<rparr>, \<lparr>Name = Some (str ''A''), Url = Some (str ''u/a/'')\<rparr>]),
       ((str ''t2''), [\<lparr>Name = Some (str ''Beta''), Url = Some (str ''u/b'')\<rparr>, \<lparr>Name = None, Url = Some (str ''u/a'')\<rparr>])]
      (connect_db init_db None))) = [(str ''u/a''), (str ''u/b'')]
   \<and> distinct (catalog_urls (committed (run_many
      [((str ''t1''), [\<lparr>Name = Some (str ''Apple''), Url = Some (str ''u/a'')\<rparr>, \<lparr>Name = Some (str ''A''), Url = Some (str ''u/a/'')\<rparr>]),
       ((str ''t2''), [\<lparr>Name = Some (str ''Beta''), Url = Some (str ''u/b'')\<rparr>, \<lparr>Name = None, Url = Some (str ''u/a'')\<rparr>])]
      (connect_db init_db None))))"
proof -
  let ?rs = "[((str ''t1''), [\<lparr>Name = Some (str ''Apple''), Url = Some (str ''u/a'')\<rparr>, \<lparr>Name = Some (str ''A''), Url = Some (str ''u/a/'')\<rparr>]),
       ((str ''t2''), [\<lparr>Name = Some (str ''Beta''), Url = Some (str ''u/b'')\<rparr>, \<lparr>Name = None, Url = Some (str ''u/a'')\<rparr>])]"
  have u: "url_of \<lparr>Name = Some (str ''Apple''), Url = Some (str ''u/a'')\<rparr> = (str ''u/a'')"
    "url_of \<lparr>Name = Some (str ''A''), Url = Some (str ''u/a/'')\<rparr> = (str ''u/a'')"
    "url_of \<lparr>Name = Some (str ''Beta''), Url = Some (str ''u/b'')\<rparr> = (str ''u/b'')"
    "url_of \<lparr>Name = None, Url = Some (str ''u/a'')\<rparr> = (str ''u/a'')"
    by (simp_all add: url_of_def rstrip_chars_def str_def)
  have "catalog_urls (committed (run_many ?rs (connect_db init_db None))) = [(str ''u/a''), (str ''u/b'')]"
    by (simp add: run_persist_unfold connect_db_def init_db_def pc_urls u insert_run_simps
        str_inj str_Nil
        catalog_urls_def [of "\<lparr>games = [], runs = [], run_games = [],
          games_seq = 0, runs_seq = 0, run_games_seq = 0\<rparr>"])
  moreover have "distinct (catalog_urls (committed (run_many ?rs (connect_db init_db None))))"
    using catalog_unique [of ?rs None] by (rule conjunct1)
  ultimately show ?thesis
    by (rule conjI)
qed


section \<open>What a failed run leaves committed\<close>

lemma execute_committed: "committed (snd (execute stmt c)) = committed c"
  by (simp add: execute_def spend_def)

lemma io_bind_committed:
  assumes "\<And>c. committed (snd (m c)) = committed c"
    and "\<And>a c. committed (snd (f a c)) = committed c"
  shows "committed (snd (io_bind m f c)) = committed c"
proof (cases "m c")
  case (Pair r c')
  then have c': "committed c' = committed c"
    using assms(1) [of c] by simp
  show ?thesis
  proof (cases r)
    case (Inl e)
    with Pair c' show ?thesis by (simp add: io_bind_def)
  next
    case (Inr a)
    with Pair c' assms(2) [of a c'] show ?thesis by (simp add: io_bind_def)
  qed
qed

lemma if_committed:
  assumes "P \<Longrightarrow> committed (snd (m c)) = committed c"
    and "\<not> P \<Longrightarrow> committed (snd (n c)) = committed c"
  shows "committed (snd ((if P then m else n) c)) = committed c"
  using assms by simp

lemma python_committed:
  "committed (snd (insert_run_game run_id name url is_new c)) = committed c"
  "committed (snd (insert_game name url seen_at c)) = committed c"
  "committed (snd (update_game_last_seen url seen_at c)) = committed c"
  unfolding insert_run_game_def insert_game_def update_game_last_seen_def
  by (intro io_bind_committed execute_committed)+

lemma run_persist_loop_committed:
  "committed (snd (run_persist_loop run_id run_at first_run results new_entries c)) = committed c"
proof (induction results arbitrary: new_entries c)
  case Nil
  then show ?case by (simp add: io_return_def)
next
  case (Cons g results)
  show ?case
  proof (cases "url_of g = []")
    case True
    with Cons show ?thesis by simp
  next
    case False
    have "committed (snd (io_bind (execute (sql_select_game_id (url_of g)))
        (\<lambda>existing.
          if existing \<noteq> None then
            io_bind (update_game_last_seen (url_of g) run_at) (\<lambda>_.
            io_bind (insert_run_game run_id (Name g) (url_of g) False) (\<lambda>_.
            run_persist_loop run_id run_at first_run results new_entries))
          else
            io_bind (insert_game (Name g) (url_of g) run_at) (\<lambda>_.
            io_bind (insert_run_game run_id (Name g) (url_of g) (if first_run then False else True)) (\<lambda>_.
            run_persist_loop run_id run_at first_run results
              (if (if first_run then False else True)
               then new_entries @ [\<lparr>Name = Name g, Url = Some (url_of g)\<rparr>]
               else new_entries)))) c)) = committed c"
      by (intro io_bind_committed if_committed execute_committed python_committed Cons.IH)
    with False show ?thesis
      by (simp only: run_persist_loop.simps Let_def if_False)
  qed
qed

lemma execute_runs:
  assumes "\<And>d. runs (snd (stmt d)) = runs d"
  shows "runs (working (snd (execute stmt c))) = runs (working c)"
  using assms by (simp add: execute_def spend_def)

lemma io_bind_runs:
  assumes "\<And>c. runs (working (snd (m c))) = runs (working c)"
    and "\<And>a c. runs (working (snd (f a c))) = runs (working c)"
  shows "runs (working (snd (io_bind m f c))) = runs (working c)"
proof (cases "m c")
  case (Pair r c')
  then have c': "runs (working c') = runs (working c)"
    using assms(1) [of c] by simp
  show ?thesis
  proof (cases r)
    case (Inl e)
    with Pair c' show ?thesis by (simp add: io_bind_def)
  next
    case (Inr a)
    with Pair c' assms(2) [of a c'] show ?thesis by (simp add: io_bind_def)
  qed
qed

lemma if_runs:
  assumes "P \<Longrightarrow> runs (working (snd (m c))) = runs (working c)"
    and "\<not> P \<Longrightarrow> runs (working (snd (n c))) = runs (working c)"
  shows "runs (working (snd ((if P then m else n) c))) = runs (working c)"
  using assms by simp

lemma sql_runs:
  "runs (snd (sql_insert_run_game run_id name url is_new d)) = runs d"
  "runs (snd (sql_insert_or_ignore_game name url seen_at d)) = runs d"
  "runs (snd (sql_update_last_seen seen_at url d)) = runs d"
  "runs (snd (sql_select_game_id url d)) = runs d"
  by (simp_all add: sql_insert_run_game_def sql_insert_or_ignore_game_def
      sql_update_last_seen_def sql_select_game_id_def Let_def)

lemma python_runs:
  "runs (working (snd (insert_run_game run_id name url is_new c))) = runs (working c)"
  "runs (working (snd (insert_game name url seen_at c))) = runs (working c)"
  "runs (working (snd (update_game_last_seen url seen_at c))) = runs (working c)"
  unfolding insert_run_game_def insert_game_def update_game_last_seen_def
  by (intro io_bind_runs execute_runs sql_runs)+

lemma run_persist_loop_runs:
  "runs (working (snd (run_persist_loop run_id run_at first_run results new_entries c))) =
   runs (working c)"
proof (induction results arbitrary: new_entries c)
  case Nil
  then show ?case by (simp add: io_return_def)
next
  case (Cons g results)
  show ?case
  proof (cases "url_of g = []")
    case True
    with Cons show ?thesis by simp
  next
    case False
    have "runs (working (snd (io_bind (execute (sql_select_game_id (url_of g)))
        (\<lambda>existing.
          if existing \<noteq> None then
            io_bind (update_game_last_seen (url_of g) run_at) (\<lambda>_.
            io_bind (insert_run_game run_id (Name g) (url_of g) False) (\<lambda>_.
            run_persist_loop run_id run_at first_run results new_entries))
          else
            io_bind (insert_game (Name g) (url_of g) run_at) (\<lambda>_.
            io_bind (insert_run_game run_id (Name g) (url_of g) (if first_run then False else True)) (\<lambda>_.
            run_persist_loop run_id run_at first_run results
              (if (if first_run then False else True)
               then new_entries @ [\<lparr>Name = Name g, Url = Some (url_of g)\<rparr>]
               else new_entries)))) c))) = runs (working c)"
      by (intro io_bind_runs if_runs execute_runs sql_runs python_runs Cons.IH)
    with False show ?thesis
      by (simp only: run_persist_loop.simps Let_def if_False)
  qed
qed

lemma execute_raises:
  "stmts_left c = Some 0 \<Longrightarrow> execute stmt c = (Inl OperationalError, c)"
  by (simp add: execute_def exhausted_def)

lemma execute_runs_stmt:
  "stmts_left c \<noteq> Some 0 \<Longrightarrow>
   execute stmt c =
     (Inr (fst (stmt (working c))),
      \<lparr>committed = committed c, working = snd (stmt (working c)),
        stmts_left = map_option (\<lambda>k. k - 1) (stmts_left c)\<rparr>)"
  by (simp add: execute_def exhausted_def spend_def)

lemma commit_raises:
  "stmts_left c = Some 0 \<Longrightarrow> commit c = (Inl OperationalError, c)"
  by (simp add: commit_def exhausted_def)

lemma commit_runs_stmt:
  "stmts_left c \<noteq> Some 0 \<Longrightarrow>
   commit c =
     (Inr (),
      \<lparr>committed = working c, working = working c,
        stmts_left = map_option (\<lambda>k. k - 1) (stmts_left c)\<rparr>)"
  by (simp add: commit_def exhausted_def spend_def)

lemma run_persist_raises_early:
  assumes "stmts_left c = Some k" and "k < 3"
  shows "fst (run_persist run_at results c) = Inl OperationalError"
    and "committed (snd (run_persist run_at results c)) = committed c"
proof -
  from assms(2) consider "k = 0" | "k = 1" | "k = 2"
    by linarith
  then have "fst (run_persist run_at results c) = Inl OperationalError \<and>
      committed (snd (run_persist run_at results c)) = committed c"
  proof cases
    case 1
    with assms(1) show ?thesis
      by (simp add: run_persist_def get_games_count_def io_bind_def execute_raises)
  next
    case 2
    with assms(1) show ?thesis
      by (simp add: run_persist_def get_games_count_def create_run_def io_bind_def
          execute_runs_stmt execute_raises)
  next
    case 3
    with assms(1) show ?thesis
      by (simp add: run_persist_def get_games_count_def create_run_def io_bind_def
          execute_runs_stmt commit_raises)
  qed
  then show "fst (run_persist run_at results c) = Inl OperationalError"
    and "committed (snd (run_persist run_at results c)) = committed c"
    by simp_all
qed

lemma run_persist_after_create_run:
  assumes "\<not> (\<exists>k. stmts_left c = Some k \<and> k < 3)"
  shows "run_persist run_at results c =
     io_bind (run_persist_loop (fst (sql_insert_run run_at (length results) (working c))) run_at
                (games (working c) = []) results [])
       (\<lambda>new_entries. io_bind commit (\<lambda>_.
          io_return (games (working c) = [], new_entries)))
       \<lparr>committed = snd (sql_insert_run run_at (length results) (working c)),
         working = snd (sql_insert_run run_at (length results) (working c)),
         stmts_left = map_option (\<lambda>k. k - 3) (stmts_left c)\<rparr>"
proof (cases "stmts_left c")
  case None
  then show ?thesis
    by (simp add: run_persist_def get_games_count_def create_run_def io_bind_def io_return_def
        execute_runs_stmt commit_runs_stmt sql_count_games_def Let_def)
next
  case (Some k)
  with assms have "3 \<le> k"
    by simp
  then obtain j where "k = Suc (Suc (Suc j))"
    by (metis add_Suc_right le_Suc_ex numeral_3_eq_3 plus_nat.add_0 add_Suc)
  with Some show ?thesis
    by (simp add: run_persist_def get_games_count_def create_run_def io_bind_def io_return_def
        execute_runs_stmt commit_runs_stmt sql_count_games_def Let_def)
qed

text \<open>
  Claim C3 (atomicity of a run), as amended. \<open>create_run\<close> commits the row of the run on its
  own, before any candidate is processed: on a connection with no open transaction, when the
  store raises at one of the first three statements of \<open>run_persist\<close> (the count, the
  insertion of the run, the commit of \<open>create_run\<close>), the run fails and the committed store is
  what it was; when it does not, the committed \<open>runs\<close> table has the row of this run added,
  whether the run then returns or fails, and a run that fails from there on leaves committed
  exactly the store before the run with the row of the run, so that the committed \<open>games\<close>
  and \<open>run_games\<close> tables are what they were before the run. The rows of \<open>games\<close> and
  \<open>run_games\<close> that the loop writes are committed together by the last statement of
  \<open>run_persist\<close>: after a run that returns, the committed store is the store as the
  connection sees it.
\<close>

theorem failed_run_committed:
  assumes "working c = committed c"
    and "run_persist run_at results c = (r, c')"
  shows "((\<exists>k. stmts_left c = Some k \<and> k < 3) \<longrightarrow>
            r = Inl OperationalError \<and> committed c' = committed c)
     \<and> (\<not> (\<exists>k. stmts_left c = Some k \<and> k < 3) \<longrightarrow>
            runs (committed c') = runs (committed c) @
              [run_row_of run_at (length results) (committed c)]
          \<and> (\<forall>e. r = Inl e \<longrightarrow>
                committed c' = snd (sql_insert_run run_at (length results) (committed c))))
     \<and> (\<forall>e. r = Inl e \<longrightarrow>
            games (committed c') = games (committed c)
          \<and> run_games (committed c') = run_games (committed c))
     \<and> (\<forall>x. r = Inr x \<longrightarrow> committed c' = working c')"
proof (cases "\<exists>k. stmts_left c = Some k \<and> k < 3")
  case True
  then obtain k where k: "stmts_left c = Some k" "k < 3"
    by (elim exE conjE)
  from run_persist_raises_early [OF k, of run_at results] assms(2)
  have "r = Inl OperationalError" and "committed c' = committed c"
    by simp_all
  with True show ?thesis
    by simp
next
  case False
  let ?d0 = "snd (sql_insert_run run_at (length results) (committed c))"
  let ?c3 = "\<lparr>committed = ?d0, working = ?d0,
      stmts_left = map_option (\<lambda>k. k - 3) (stmts_left c)\<rparr>"
  let ?loop = "run_persist_loop (fst (sql_insert_run run_at (length results) (committed c)))
      run_at (games (committed c) = []) results [] ?c3"
  have d0: "games ?d0 = games (committed c)" "run_games ?d0 = run_games (committed c)"
    "runs ?d0 = runs (committed c) @ [run_row_of run_at (length results) (committed c)]"
    by (simp_all add: sql_insert_run_def run_row_of_def Let_def)
  obtain r4 c4 where x4: "?loop = (r4, c4)"
    by (cases ?loop)
  have "committed (snd ?loop) = committed ?c3"
    by (rule run_persist_loop_committed)
  then have k4: "committed c4 = ?d0"
    by (simp only: x4 snd_conv conn.simps)
  have "runs (working (snd ?loop)) = runs (working ?c3)"
    by (rule run_persist_loop_runs)
  then have w4: "runs (working c4) = runs ?d0"
    by (simp only: x4 snd_conv conn.simps)
  have unfold: "run_persist run_at results c =
      (case r4 of Inl e \<Rightarrow> (Inl e, c4)
       | Inr new_entries \<Rightarrow>
           io_bind commit (\<lambda>_. io_return (games (committed c) = [], new_entries)) c4)"
    unfolding run_persist_after_create_run [OF False] assms(1)
    by (simp add: io_bind_def [of "run_persist_loop _ _ _ _ _"] x4 split: sum.split)
  have m: "(runs (committed c') = runs ?d0)
      \<and> (\<forall>e. r = Inl e \<longrightarrow> committed c' = ?d0)
      \<and> (\<forall>x. r = Inr x \<longrightarrow> committed c' = working c')"
  proof (cases r4)
    case (Inl e4)
    with unfold assms(2) have "r = Inl e4" and "c' = c4"
      by simp_all
    with k4 show ?thesis
      by simp
  next
    case (Inr new_entries)
    show ?thesis
    proof (cases "stmts_left c4 = Some 0")
      case True
      with unfold assms(2) Inr have "r = Inl OperationalError" and "c' = c4"
        by (simp_all add: io_bind_def commit_raises)
      with k4 show ?thesis
        by simp
    next
      case False
      with unfold assms(2) Inr
      have "r = Inr (games (committed c) = [], new_entries)"
        and "c' = \<lparr>committed = working c4, working = working c4,
          stmts_left = map_option (\<lambda>k. k - 1) (stmts_left c4)\<rparr>"
        by (simp_all add: io_bind_def io_return_def commit_runs_stmt)
      with w4 show ?thesis
        by simp
    qed
  qed
  from False have p1: "(\<exists>k. stmts_left c = Some k \<and> k < 3) \<longrightarrow>
      r = Inl OperationalError \<and> committed c' = committed c"
    by (intro impI) (erule notE, assumption)
  from m d0(3) have p2: "\<not> (\<exists>k. stmts_left c = Some k \<and> k < 3) \<longrightarrow>
      runs (committed c') = runs (committed c) @
        [run_row_of run_at (length results) (committed c)]
      \<and> (\<forall>e. r = Inl e \<longrightarrow> committed c' = ?d0)"
    by simp
  have p3: "\<forall>e. r = Inl e \<longrightarrow>
      games (committed c') = games (committed c)
      \<and> run_games (committed c') = run_games (committed c)"
  proof (intro allI impI)
    fix e
    assume "r = Inl e"
    with m have "committed c' = ?d0"
      by simp
    with d0(1,2) show "games (committed c') = games (committed c)
      \<and> run_games (committed c') = run_games (committed c)"
      by simp
  qed
  from m have p4: "\<forall>x. r = Inr x \<longrightarrow> committed c' = working c'"
    by simp
  show ?thesis
    by (rule conjI [OF p1 conjI [OF p2 conjI [OF p3 p4]]])
qed

lemma failed_run_example:
  "run_persist (str ''t1'') [\<lparr>Name = Some (str ''Apple''), Url = Some (str ''u/a'')\<rparr>]
      (connect_db init_db (Some 4)) =
     (Inl OperationalError,
      \<lparr>committed =
         \<lparr>games = [], runs = [\<lparr>r_id = 1, r_run_at = (str ''t1''), r_snapshot_count = 1\<rparr>],
           run_games = [], games_seq = 0, runs_seq = 1, run_games_seq = 0\<rparr>,
       working =
         \<lparr>games = [], runs = [\<lparr>r_id = 1, r_run_at = (str ''t1''), r_snapshot_count = 1\<rparr>],
           run_games = [], games_seq = 0, runs_seq = 1, run_games_seq = 0\<rparr>,
       stmts_left = Some 0\<rparr>)"
  by (simp add: run_persist_def get_games_count_def create_run_def insert_game_def
      io_bind_def io_return_def execute_def commit_def exhausted_def spend_def connect_db_def
      init_db_def sql_count_games_def sql_insert_run_def sql_select_game_id_def next_rowid_def
      url_of_def rstrip_chars_def str_def Let_def)

lemma early_failure_example:
  "run_persist (str ''t1'') [\<lparr>Name = Some (str ''Apple''), Url = Some (str ''u/a'')\<rparr>]
      (connect_db init_db (Some 2)) =
     (Inl OperationalError,
      \<lparr>committed = init_db,
       working =
         \<lparr>games = [], runs = [\<lparr>r_id = 1, r_run_at = (str ''t1''), r_snapshot_count = 1\<rparr>],
           run_games = [], games_seq = 0, runs_seq = 1, run_games_seq = 0\<rparr>,
       stmts_left = Some 0\<rparr>)"
  by (simp add: run_persist_def get_games_count_def create_run_def insert_game_def
      io_bind_def io_return_def execute_def commit_def exhausted_def spend_def connect_db_def
      init_db_def sql_count_games_def sql_insert_run_def sql_select_game_id_def next_rowid_def
      url_of_def rstrip_chars_def str_def Let_def)

text \<open>
  The claim as stated fails: when the store raises at the fifth statement of a run on one
  candidate, the run fails, and the committed store holds the row of the run and no
  association of it.
\<close>

theorem run_row_without_associations:
  "fst (run_persist (str ''t1'') [\<lparr>Name = Some (str ''Apple''), Url = Some (str ''u/a'')\<rparr>]
          (connect_db init_db (Some 4))) = Inl OperationalError
   \<and> runs (committed (snd (run_persist (str ''t1'') [\<lparr>Name = Some (str ''Apple''), Url = Some (str ''u/a'')\<rparr>]
          (connect_db init_db (Some 4))))) =
       [\<lparr>r_id = 1, r_run_at = (str ''t1''), r_snapshot_count = 1\<rparr>]
   \<and> run_games (committed (snd (run_persist (str ''t1'') [\<lparr>Name = Some (str ''Apple''), Url = Some (str ''u/a'')\<rparr>]
          (connect_db init_db (Some 4))))) = []"
  by (simp add: failed_run_example)

theorem failed_run_committed_witness:
  "working (connect_db init_db (Some 4)) = committed (connect_db init_db (Some 4))
   \<and> stmts_left (connect_db init_db (Some 4)) = Some 4
   \<and> fst (run_persist (str ''t1'') [\<lparr>Name = Some (str ''Apple''), Url = Some (str ''u/a'')\<rparr>]
          (connect_db init_db (Some 4))) = Inl OperationalError
   \<and> committed (snd (run_persist (str ''t1'') [\<lparr>Name = Some (str ''Apple''), Url = Some (str ''u/a'')\<rparr>]
          (connect_db init_db (Some 4)))) =
       \<lparr>games = [], runs = [\<lparr>r_id = 1, r_run_at = (str ''t1''), r_snapshot_count = 1\<rparr>],
         run_games = [], games_seq = 0, runs_seq = 1, run_games_seq = 0\<rparr>
   \<and> stmts_left (connect_db init_db (Some 2)) = Some 2
   \<and> fst (run_persist (str ''t1'') [\<lparr>Name = Some (str ''Apple''), Url = Some (str ''u/a'')\<rparr>]
          (connect_db init_db (Some 2))) = Inl OperationalError
   \<and> committed (snd (run_persist (str ''t1'') [\<lparr>Name = Some (str ''Apple''), Url = Some (str ''u/a'')\<rparr>]
          (connect_db init_db (Some 2)))) = init_db"
proof -
  let ?g = "[\<lparr>Name = Some (str ''Apple''), Url = Some (str ''u/a'')\<rparr>]"
  let ?c1 = "\<lparr>committed =
         \<lparr>games = [], runs = [\<lparr>r_id = 1, r_run_at = (str ''t1''), r_snapshot_count = 1\<rparr>],
           run_games = [], games_seq = 0, runs_seq = 1, run_games_seq = 0\<rparr>,
       working =
         \<lparr>games = [], runs = [\<lparr>r_id = 1, r_run_at = (str ''t1''), r_snapshot_count = 1\<rparr>],
           run_games = [], games_seq = 0, runs_seq = 1, run_games_seq = 0\<rparr>,
       stmts_left = Some 0\<rparr>"
  let ?c2 = "\<lparr>committed = init_db,
       working =
         \<lparr>games = [], runs = [\<lparr>r_id = 1, r_run_at = (str ''t1''), r_snapshot_count = 1\<rparr>],
           run_games = [], games_seq = 0, runs_seq = 1, run_games_seq = 0\<rparr>,
       stmts_left = Some 0\<rparr>"
  have h4: "working (connect_db init_db (Some 4)) = committed (connect_db init_db (Some 4))"
    and s4: "stmts_left (connect_db init_db (Some 4)) = Some 4"
    and n4: "\<not> (\<exists>k. stmts_left (connect_db init_db (Some 4)) = Some k \<and> k < 3)"
    and h2: "working (connect_db init_db (Some 2)) = committed (connect_db init_db (Some 2))"
    and s2: "stmts_left (connect_db init_db (Some 2)) = Some 2"
    and n2: "\<exists>k. stmts_left (connect_db init_db (Some 2)) = Some k \<and> k < 3"
    by (simp_all add: connect_db_def)
  have "committed ?c1 =
      snd (sql_insert_run (str ''t1'') (length ?g) (committed (connect_db init_db (Some 4))))"
    by (rule failed_run_committed [OF h4 failed_run_example, THEN conjunct2, THEN conjunct1,
          THEN mp, OF n4, THEN conjunct2, THEN spec, THEN mp, OF refl])
  moreover have "snd (sql_insert_run (str ''t1'') (length ?g)
        (committed (connect_db init_db (Some 4)))) =
       \<lparr>games = [], runs = [\<lparr>r_id = 1, r_run_at = (str ''t1''), r_snapshot_count = 1\<rparr>],
         run_games = [], games_seq = 0, runs_seq = 1, run_games_seq = 0\<rparr>"
    by (simp add: sql_insert_run_def connect_db_def init_db_def next_rowid_def Let_def)
  ultimately have a: "committed ?c1 =
       \<lparr>games = [], runs = [\<lparr>r_id = 1, r_run_at = (str ''t1''), r_snapshot_count = 1\<rparr>],
         run_games = [], games_seq = 0, runs_seq = 1, run_games_seq = 0\<rparr>"
    by (rule trans)
  have "committed ?c2 = committed (connect_db init_db (Some 2))"
    by (rule failed_run_committed [OF h2 early_failure_example, THEN conjunct1,
          THEN mp, OF n2, THEN conjunct2])
  moreover have "committed (connect_db init_db (Some 2)) = init_db"
    by (simp add: connect_db_def)
  ultimately have b: "committed ?c2 = init_db"
    by (rule trans)
  from h4 s4 s2 a b show ?thesis
    by (simp only: failed_run_example early_failure_example fst_conv snd_conv simp_thms)
qed

section \<open>The claims about the historical feed\<close>

lemma urls_of_Inr:
  "\<forall>g \<in> set gs. Url g \<noteq> None \<Longrightarrow> \<exists>us. urls_of gs = Inr us \<and> Some ` set us = Url ` set gs"
proof (induction gs)
  case Nil
  then show ?case by simp
next
  case (Cons g gs)
  then obtain us where "urls_of gs = Inr us" and "Some ` set us = Url ` set gs"
    by auto
  moreover from Cons.prems obtain u where "Url g = Some u"
    by auto
  ultimately show ?case
    by auto
qed





text \<open>
  What the \<open>try\<close> of \<open>load_json_games\<close> covers: when no feed file exists, or \<open>json.load\<close>
  raises on the one that does, \<open>load_json_games\<close> yields the empty feed and
  \<open>save_new_games_file\<close> raises nothing: it leaves the file as it is when there are no new
  entries and otherwise writes all of them, each having its \<open>"Url"\<close> as the entries that
  \<open>run_persist\<close> returns do.
\<close>

lemma feed_read_recovered:
  assumes "f = Missing \<or> (\<exists>text. f = Content text \<and> json_load text = None)"
    and "\<forall>g \<in> set new_entries. Url g \<noteq> None"
  shows "load_json_games json_load f = Inr (JArray [])
     \<and> save_new_games_file json_load json_dump new_entries f =
         Inr (if new_entries = [] then f else Content (json_dump (map Inl new_entries)))"
proof -
  have l: "load_json_games json_load f = Inr (JArray [])"
    using assms(1) by (auto simp: load_json_games_def)
  obtain vs where vs: "urls_of new_entries = Inr vs"
    using urls_of_Inr [OF assms(2)] by blast
  show ?thesis
    by (simp add: save_new_games_file_def Let_def l vs iterate_def)
qed

text \<open>
  Claim C6 (feed read failure) does not hold of the code. \<open>open\<close> stands before the \<open>try\<close> of
  \<open>load_json_games\<close>, so for a feed file that exists and cannot be opened the error leaves
  \<open>load_json_games\<close> and \<open>save_new_games_file\<close>. And \<open>json.load\<close> raises nothing on content
  that is JSON of another shape than a list of entries with \<open>"Url"\<close>: on the content
  \<^verbatim>\<open>[{}]\<close> the loaded feed is not empty and \<open>g["Url"]\<close> raises \<open>KeyError\<close>, on the content
  \<^verbatim>\<open>{}\<close> the loaded value is a \<open>dict\<close> and \<open>truly_new + existing_new\<close> raises \<open>TypeError\<close>.
\<close>

theorem feed_read_error_propagates:
  "load_json_games
     (\<lambda>text. if text = str ''[{}]'' then Some (JArray [JObject []])
        else if text = str ''{}'' then Some (JObject []) else None)
     Unopenable = Inl OSError
   \<and> save_new_games_file
     (\<lambda>text. if text = str ''[{}]'' then Some (JArray [JObject []])
        else if text = str ''{}'' then Some (JObject []) else None)
     (\<lambda>xs. [])
     [\<lparr>Name = Some (str ''Gamma''), Url = Some (str ''u/g'')\<rparr>] Unopenable = Inl OSError
   \<and> load_json_games
     (\<lambda>text. if text = str ''[{}]'' then Some (JArray [JObject []])
        else if text = str ''{}'' then Some (JObject []) else None)
     (Content (str ''[{}]'')) = Inr (JArray [JObject []])
   \<and> save_new_games_file
     (\<lambda>text. if text = str ''[{}]'' then Some (JArray [JObject []])
        else if text = str ''{}'' then Some (JObject []) else None)
     (\<lambda>xs. [])
     [\<lparr>Name = Some (str ''Gamma''), Url = Some (str ''u/g'')\<rparr>] (Content (str ''[{}]''))
       = Inl KeyError
   \<and> load_json_games
     (\<lambda>text. if text = str ''[{}]'' then Some (JArray [JObject []])
        else if text = str ''{}'' then Some (JObject []) else None)
     (Content (str ''{}'')) = Inr (JObject [])
   \<and> save_new_games_file
     (\<lambda>text. if text = str ''[{}]'' then Some (JArray [JObject []])
        else if text = str ''{}'' then Some (JObject []) else None)
     (\<lambda>xs. [])
     [\<lparr>Name = Some (str ''Gamma''), Url = Some (str ''u/g'')\<rparr>] (Content (str ''{}''))
       = Inl TypeError"
  by (simp add: load_json_games_def save_new_games_file_def iterate_def getitem_Url_def
      str_inj Let_def)

section \<open>The claim about extraction\<close>

text \<open>
  Claim C7 (rebasing of relative links) does not hold of the code. For the anchor
  \<^verbatim>\<open><a href="/game1-free-download">Game One</a>\<close> the extractor emits the link
  \<^verbatim>\<open>https://steamrip.comgame1-free-download\<close>: \<open>lstrip("/")\<close> removes the leading slash of
  the path and nothing puts one back after the origin. The link joined with a single slash
  is another string.
\<close>

theorem relative_link_loses_slash:
  "extract_loop charref [((str ''/game1-free-download''), (str ''Game One''))] {} =
     [\<lparr>Name = Some (str ''Game One''), Url = Some (str ''https://steamrip.comgame1-free-download'')\<rparr>]
   \<and> rebase_href (str ''/game1-free-download'') \<noteq> origin @ (str ''/'') @ (str ''game1-free-download'')"
proof -
  have s: "strip (str ''/game1-free-download'') = (str ''/game1-free-download'')" "strip (str ''Game One'') = (str ''Game One'')"
    by (simp_all add: strip_def is_space_def str_def)
  have r: "rebase_href (str ''/game1-free-download'') = (str ''https://steamrip.comgame1-free-download'')"
    by (simp add: rebase_href_def origin_def lstrip_chars_def rstrip_chars_def str_def)
  have n: "clean_name charref (str ''Game One'') = (str ''Game One'')"
    by (simp add: clean_name_def strip_def is_space_def paren_at_def paren_closes_def
        free_download_at_def istarts_with_def lower_char_def strip_chars_def lstrip_chars_def
        rstrip_chars_def unescape_def newline_def rest_of_line_def str_def stray_def)
  have ne: "str ''Game One'' \<noteq> []" "str ''https://steamrip.comgame1-free-download'' \<noteq> []"
    "str ''/game1-free-download'' \<noteq> []"
    by (simp_all add: str_def)
  have "extract_loop charref [(str ''/game1-free-download'', str ''Game One'')] {} =
     [\<lparr>Name = Some (str ''Game One''), Url = Some (str ''https://steamrip.comgame1-free-download'')\<rparr>]"
    by (simp add: s r n ne Let_def)
  moreover have "rebase_href (str ''/game1-free-download'') \<noteq>
      origin @ str ''/'' @ str ''game1-free-download''"
    unfolding r by (simp add: origin_def str_def)
  ultimately show ?thesis
    by (rule conjI)
qed

section \<open>Normalisation twice\<close>

subsection \<open>Stripping\<close>

lemma rstrip_prefix: "\<exists>r. s = rev (dropWhile Q (rev s)) @ r"
proof -
  have "rev s = takeWhile Q (rev s) @ dropWhile Q (rev s)"
    by simp
  then have "s = rev (dropWhile Q (rev s)) @ rev (takeWhile Q (rev s))"
    by (metis rev_append rev_rev_ident)
  then show ?thesis ..
qed

lemma lstrip_suffix: "\<exists>l. s = l @ dropWhile Q s"
  by (metis takeWhile_dropWhile_id)

lemma lstrip_fixed: "s = [] \<or> \<not> Q (hd s) \<Longrightarrow> dropWhile Q s = s"
  by (cases s) auto

lemma rstrip_fixed: "s = [] \<or> \<not> Q (last s) \<Longrightarrow> rev (dropWhile Q (rev s)) = s"
  by (cases s rule: rev_cases) auto

lemma lstrip_hd: "dropWhile Q s \<noteq> [] \<Longrightarrow> \<not> Q (hd (dropWhile Q s))"
  by (simp add: hd_dropWhile)

lemma rstrip_last: "rev (dropWhile Q (rev s)) \<noteq> [] \<Longrightarrow> \<not> Q (last (rev (dropWhile Q (rev s))))"
  by (simp add: last_rev hd_dropWhile)

lemma lstrip_last: "dropWhile Q s \<noteq> [] \<Longrightarrow> last (dropWhile Q s) = last s"
  by (metis last_appendR takeWhile_dropWhile_id)

lemma dropWhile_nonempty: "dropWhile Q r \<noteq> [] \<Longrightarrow> r \<noteq> []"
  by (cases r) simp_all

lemma strip_chars_ends:
  assumes "strip_chars cs s \<noteq> []"
  shows "hd (strip_chars cs s) \<notin> set cs" and "last (strip_chars cs s) \<notin> set cs"
proof -
  let ?r = "rev (dropWhile (\<lambda>c. c \<in> set cs) (rev s))"
  have ne: "dropWhile (\<lambda>c. c \<in> set cs) ?r \<noteq> []"
    using assms by (simp add: strip_chars_def lstrip_chars_def rstrip_chars_def)
  then have r: "?r \<noteq> []"
    by (rule dropWhile_nonempty)
  show "hd (strip_chars cs s) \<notin> set cs"
    using lstrip_hd [OF ne] by (simp add: strip_chars_def lstrip_chars_def rstrip_chars_def)
  have "last (dropWhile (\<lambda>c. c \<in> set cs) ?r) = last ?r"
    using ne by (rule lstrip_last)
  moreover have "last ?r \<notin> set cs"
    using rstrip_last [OF r] .
  ultimately show "last (strip_chars cs s) \<notin> set cs"
    by (simp add: strip_chars_def lstrip_chars_def rstrip_chars_def)
qed

lemma strip_chars_fixed:
  assumes "s = [] \<or> (hd s \<notin> set cs \<and> last s \<notin> set cs)"
  shows "strip_chars cs s = s"
proof -
  have "rev (dropWhile (\<lambda>c. c \<in> set cs) (rev s)) = s"
    using assms by (intro rstrip_fixed) auto
  moreover have "dropWhile (\<lambda>c. c \<in> set cs) s = s"
    using assms by (intro lstrip_fixed) auto
  ultimately show ?thesis
    by (simp add: strip_chars_def lstrip_chars_def rstrip_chars_def)
qed

lemma strip_fixed:
  assumes "s = [] \<or> (\<not> is_space (hd s) \<and> \<not> is_space (last s))"
  shows "strip s = s"
proof -
  have "rev (dropWhile is_space (rev s)) = s"
    using assms by (intro rstrip_fixed) auto
  moreover have "dropWhile is_space s = s"
    using assms by (intro lstrip_fixed) auto
  ultimately show ?thesis
    by (simp add: strip_def)
qed

lemma set_strip: "set (strip s) \<subseteq> set s"
proof -
  have "set (strip s) \<subseteq> set (rev (dropWhile is_space (rev s)))"
    unfolding strip_def by (rule set_dropWhileD [THEN subsetI]) 
  also have "\<dots> \<subseteq> set s"
    using set_dropWhileD [of _ is_space "rev s"] by auto
  finally show ?thesis .
qed

lemma set_strip_chars: "set (strip_chars cs s) \<subseteq> set s"
proof -
  have "set (strip_chars cs s) \<subseteq> set (rev (dropWhile (\<lambda>c. c \<in> set cs) (rev s)))"
    unfolding strip_chars_def lstrip_chars_def rstrip_chars_def
    by (rule set_dropWhileD [THEN subsetI])
  also have "\<dots> \<subseteq> set s"
    using set_dropWhileD [of _ "\<lambda>c. c \<in> set cs" "rev s"] by auto
  finally show ?thesis .
qed

subsection \<open>The parenthesis pattern\<close>

lemma paren_at_needs_paren: "paren_at s \<Longrightarrow> of_char CHR ''('' \<in> set s"
proof -
  assume "paren_at s"
  then have "dropWhile is_space s \<noteq> []" and "hd (dropWhile is_space s) = of_char CHR ''(''"
    by (simp_all add: paren_at_def Let_def)
  then have "of_char CHR ''('' \<in> set (dropWhile is_space s)"
    by (metis hd_in_set)
  then show ?thesis
    by (rule set_dropWhileD)
qed

lemma sub_paren_fixed: "of_char CHR ''('' \<notin> set s \<Longrightarrow> sub_paren s = s"
proof (induction s)
  case Nil
  then show ?case by simp
next
  case (Cons c cs)
  then have "\<not> paren_at (c # cs)"
    using paren_at_needs_paren by blast
  with Cons show ?case by simp
qed

lemma set_sub_paren: "set (sub_paren s) \<subseteq> set s"
  by (induction s) auto

lemma sub_paren_prefix: "\<exists>r. s = sub_paren s @ r"
  by (induction s) auto

lemma set_sub_free_download: "set (sub_free_download s) \<subseteq> set s"
proof (induction s)
  case Nil
  then show ?case by simp
next
  case (Cons c cs)
  have "last (c # cs) \<in> set (c # cs)"
    by (rule last_in_set) simp
  with Cons show ?case
    by auto
qed

subsection \<open>Collapsing white space\<close>

lemma collapse_ws_hd:
  "u \<noteq> [] \<Longrightarrow> \<not> is_space (hd u) \<Longrightarrow> collapse_ws u \<noteq> [] \<and> hd (collapse_ws u) = hd u"
  by (cases u) simp_all

lemma collapse_ws_Cons_nonempty: "collapse_ws u = d # r \<Longrightarrow> u \<noteq> []"
  by (cases u) simp_all

lemma collapse_single_spaced: "single_spaced (collapse_ws s)"
proof (induction s rule: collapse_ws.induct)
  case 1
  then show ?case by simp
next
  case (2 c cs)
  show ?case
  proof (cases "is_space c")
    case True
    let ?u = "dropWhile is_space cs"
    from True 2 have ih: "single_spaced (collapse_ws ?u)"
      by simp
    show ?thesis
    proof (cases "collapse_ws ?u")
      case Nil
      with True show ?thesis by simp
    next
      case (Cons d r)
      then have "?u \<noteq> []"
        by (rule collapse_ws_Cons_nonempty)
      then have "\<not> is_space (hd ?u)"
        by (simp add: hd_dropWhile)
      with \<open>?u \<noteq> []\<close> have "hd (collapse_ws ?u) = hd ?u"
        by (simp add: collapse_ws_hd)
      with Cons \<open>\<not> is_space (hd ?u)\<close> have "\<not> is_space d"
        by simp
      with True ih Cons show ?thesis by simp
    qed
  next
    case False
    with 2 have ih: "single_spaced (collapse_ws cs)"
      by simp
    with False show ?thesis
      by (cases "collapse_ws cs") simp_all
  qed
qed

lemma single_spaced_fixed: "single_spaced s \<Longrightarrow> collapse_ws s = s"
  by (induction s rule: single_spaced.induct) auto

lemma single_spaced_tl: "single_spaced (c # cs) \<Longrightarrow> single_spaced cs"
  by (cases cs) simp_all

lemma single_spaced_dropWhile: "single_spaced s \<Longrightarrow> single_spaced (dropWhile Q s)"
  by (induction s) (auto dest: single_spaced_tl)

lemma single_spaced_prefix: "single_spaced (p @ r) \<Longrightarrow> single_spaced p"
proof (induction p rule: single_spaced.induct)
  case 1
  then show ?case by simp
next
  case (2 c)
  then show ?case by (cases r) simp_all
next
  case (3 c d cs)
  then show ?case by simp
qed

lemma single_spaced_space: "single_spaced s \<Longrightarrow> c \<in> set s \<Longrightarrow> is_space c \<Longrightarrow> c = of_char CHR '' ''"
  by (induction s rule: single_spaced.induct) auto

lemma set_collapse_ws: "set (collapse_ws s) \<subseteq> insert (of_char CHR '' '') (set s)"
proof (induction s rule: collapse_ws.induct)
  case 1
  then show ?case by simp
next
  case (2 c cs)
  have "set (dropWhile is_space cs) \<subseteq> set cs"
    by (auto dest: set_dropWhileD)
  with 2 show ?case
    by (cases "is_space c") auto
qed

lemma single_spaced_strip_chars: "single_spaced s \<Longrightarrow> single_spaced (strip_chars cs s)"
proof -
  assume s: "single_spaced s"
  obtain r where "s = rev (dropWhile (\<lambda>c. c \<in> set cs) (rev s)) @ r"
    using rstrip_prefix by blast
  with s have "single_spaced (rev (dropWhile (\<lambda>c. c \<in> set cs) (rev s)))"
    by (metis single_spaced_prefix)
  then show ?thesis
    by (simp add: strip_chars_def lstrip_chars_def rstrip_chars_def single_spaced_dropWhile)
qed

text \<open>What the last two steps of \<open>clean_name\<close> produce is left unchanged by all but the first
  two.\<close>

lemma tidy_fixed:
  assumes "y = strip_chars stray (collapse_ws t)"
  shows "strip y = y" and "collapse_ws y = y" and "strip_chars stray y = y"
proof -
  have ss: "single_spaced y"
    unfolding assms by (intro single_spaced_strip_chars collapse_single_spaced)
  then show "collapse_ws y = y"
    by (rule single_spaced_fixed)
  have ends: "y = [] \<or> (hd y \<notin> set stray \<and> last y \<notin> set stray)"
    unfolding assms using strip_chars_ends [of "stray" "collapse_ws t"] by blast
  then show "strip_chars stray y = y"
    by (rule strip_chars_fixed)
  have sp: "of_char CHR '' '' \<in> set stray"
    by (simp add: stray_def str_def)
  have "\<not> is_space (hd y) \<and> \<not> is_space (last y)" if "y \<noteq> []"
  proof -
    from that ends sp have h: "hd y \<noteq> of_char CHR '' ''" and l: "last y \<noteq> of_char CHR '' ''"
      by auto
    from that have "hd y \<in> set y" and "last y \<in> set y"
      by simp_all
    with ss h l show ?thesis
      using single_spaced_space by blast
  qed
  then show "strip y = y"
    by (intro strip_fixed) blast
qed

subsection \<open>The promotional suffix\<close>

lemma istarts_with_length: "istarts_with pat s \<Longrightarrow> length pat \<le> length s"
proof -
  assume "istarts_with pat s"
  then have "length (map lower_char (take (length pat) s)) = length pat"
    by (simp only: istarts_with_def)
  then show ?thesis by simp
qed

lemma istarts_with_append: "istarts_with pat s \<Longrightarrow> istarts_with pat (s @ r)"
  using istarts_with_length [of pat s] by (simp add: istarts_with_def)

lemma dropWhile_append_nonempty: "dropWhile Q s \<noteq> [] \<Longrightarrow> dropWhile Q (s @ r) = dropWhile Q s @ r"
  by (induction s) auto

lemma istarts_with_nonempty: "istarts_with pat s \<Longrightarrow> pat \<noteq> [] \<Longrightarrow> s \<noteq> []"
  using istarts_with_length [of pat s] by (cases s) auto

lemma free_download_at_head: "free_download_at s \<Longrightarrow> free_download_head s"
  by (simp add: free_download_at_def free_download_head_def Let_def)

lemma free_download_head_at:
  assumes "newline \<notin> set s" and "free_download_head s"
  shows "free_download_at s"
proof -
  let ?r = "drop 8 (dropWhile is_space (drop 4 (dropWhile is_space s)))"
  have "set ?r \<subseteq> set s"
    by (meson set_drop_subset set_dropWhileD subsetI subset_trans in_mono)
  with assms(1) have "rest_of_line ?r"
    by (auto simp: rest_of_line_def)
  with assms(2) show ?thesis
    by (simp add: free_download_at_def free_download_head_def Let_def)
qed

lemma free_download_head_append:
  assumes "free_download_head s"
  shows "free_download_head (s @ r)"
proof -
  let ?s1 = "dropWhile is_space s"
  let ?s2 = "drop 4 ?s1"
  let ?s3 = "dropWhile is_space ?s2"
  from assms have f: "istarts_with (str ''free'') ?s1" and n: "?s2 \<noteq> []" and w: "is_space (hd ?s2)"
    and d: "istarts_with (str ''download'') ?s3"
    by (simp_all add: free_download_head_def Let_def)
  from f have "?s1 \<noteq> []"
    by (rule istarts_with_nonempty) (simp add: str_def)
  then have s1: "dropWhile is_space (s @ r) = ?s1 @ r"
    by (rule dropWhile_append_nonempty)
  from f have "4 \<le> length ?s1"
    using istarts_with_length [of "str ''free''" ?s1] by (simp add: str_def)
  then have s2: "drop 4 (?s1 @ r) = ?s2 @ r"
    by simp
  from d have "?s3 \<noteq> []"
    by (rule istarts_with_nonempty) (simp add: str_def)
  then have s3: "dropWhile is_space (?s2 @ r) = ?s3 @ r"
    by (rule dropWhile_append_nonempty)
  have "istarts_with (str ''free'') (?s1 @ r)"
    using f by (rule istarts_with_append)
  moreover have "?s2 @ r \<noteq> []" and "is_space (hd (?s2 @ r))"
    using n w by simp_all
  moreover have "istarts_with (str ''download'') (?s3 @ r)"
    using d by (rule istarts_with_append)
  ultimately show ?thesis
    unfolding free_download_head_def Let_def s1 s2 s3 by blast
qed

lemma has_free_download_append: "has_free_download p \<Longrightarrow> has_free_download (p @ r)"
proof (induction p)
  case Nil
  then show ?case by simp
next
  case (Cons c p)
  then show ?case
    using free_download_head_append [of "c # p" r] by auto
qed

lemma has_free_download_dropWhile: "has_free_download (dropWhile Q s) \<Longrightarrow> has_free_download s"
  by (induction s) (auto split: if_splits)

lemma has_free_download_strip: "has_free_download (strip s) \<Longrightarrow> has_free_download s"
proof -
  assume "has_free_download (strip s)"
  then have h: "has_free_download (rev (dropWhile is_space (rev s)))"
    unfolding strip_def by (rule has_free_download_dropWhile)
  obtain r where "s = rev (dropWhile is_space (rev s)) @ r"
    using rstrip_prefix by blast
  with h show ?thesis
    by (metis has_free_download_append)
qed

lemma has_free_download_strip_chars:
  "has_free_download (strip_chars cs s) \<Longrightarrow> has_free_download s"
proof -
  assume "has_free_download (strip_chars cs s)"
  then have h: "has_free_download (rev (dropWhile (\<lambda>c. c \<in> set cs) (rev s)))"
    unfolding strip_chars_def lstrip_chars_def rstrip_chars_def
    by (rule has_free_download_dropWhile)
  obtain r where "s = rev (dropWhile (\<lambda>c. c \<in> set cs) (rev s)) @ r"
    using rstrip_prefix by blast
  with h show ?thesis
    by (metis has_free_download_append)
qed

lemma sub_free_download_fixed: "\<not> has_free_download s \<Longrightarrow> sub_free_download s = s"
  by (induction s) (auto dest: free_download_at_head)

lemma sub_free_download_prefix: "newline \<notin> set s \<Longrightarrow> \<exists>r. s = sub_free_download s @ r"
proof (induction s)
  case Nil
  then show ?case by simp
next
  case (Cons c cs)
  have "last (c # cs) \<in> set (c # cs)"
    by (rule last_in_set) simp
  with Cons.prems have "last (c # cs) \<noteq> newline"
    by metis
  with Cons show ?case
    by auto
qed

lemma sub_free_download_clears:
  "newline \<notin> set s \<Longrightarrow> \<not> has_free_download (sub_free_download s)"
proof (induction s)
  case Nil
  then show ?case by simp
next
  case (Cons c cs)
  have "last (c # cs) \<in> set (c # cs)"
    by (rule last_in_set) simp
  with Cons.prems have nl: "last (c # cs) \<noteq> newline"
    by metis
  show ?case
  proof (cases "free_download_at (c # cs)")
    case True
    with nl show ?thesis by simp
  next
    case False
    from Cons.prems obtain r where r: "cs = sub_free_download cs @ r"
      using sub_free_download_prefix [of cs] by auto
    have "\<not> free_download_head (c # sub_free_download cs)"
    proof
      assume "free_download_head (c # sub_free_download cs)"
      then have "free_download_head ((c # sub_free_download cs) @ r)"
        by (rule free_download_head_append)
      with r have "free_download_head (c # cs)"
        by simp
      with Cons.prems have "free_download_at (c # cs)"
        by (intro free_download_head_at)
      with False show False ..
    qed
    with False Cons show ?thesis by simp
  qed
qed

subsection \<open>Collapsing white space creates no promotional suffix\<close>

lemma space_lower: "is_space a \<Longrightarrow> lower_char a = a"
  by (auto simp: is_space_def lower_char_def Let_def)

lemma collapse_ws_stripped:
  "u = [] \<or> \<not> is_space (hd u) \<Longrightarrow> dropWhile is_space (collapse_ws u) = collapse_ws u"
  by (cases u) auto

lemma dropWhile_stripped: "dropWhile Q cs = [] \<or> \<not> Q (hd (dropWhile Q cs))"
  by (induction cs) auto

lemma dropWhile_collapse_ws:
  "dropWhile is_space (collapse_ws s) = collapse_ws (dropWhile is_space s)"
proof (cases s)
  case Nil
  then show ?thesis by simp
next
  case (Cons c cs)
  show ?thesis
  proof (cases "is_space c")
    case True
    have sp: "is_space (of_char CHR '' '')"
      by (simp add: is_space_def)
    have "dropWhile is_space (collapse_ws (dropWhile is_space cs)) =
        collapse_ws (dropWhile is_space cs)"
      using dropWhile_stripped [of is_space cs] by (rule collapse_ws_stripped)
    with True sp show ?thesis
      by (simp add: Cons)
  next
    case False
    then show ?thesis by (simp add: Cons)
  qed
qed

lemma collapse_ws_letter:
  assumes "collapse_ws s = a # rest" and "\<not> is_space a"
  shows "\<exists>u. s = a # u \<and> collapse_ws u = rest"
proof (cases s)
  case Nil
  with assms show ?thesis by simp
next
  case (Cons c cs)
  have sp: "is_space (of_char CHR '' '')"
    by (simp add: is_space_def)
  show ?thesis
  proof (cases "is_space c")
    case True
    with assms Cons sp show ?thesis by auto
  next
    case False
    with assms Cons show ?thesis by simp
  qed
qed

lemma collapse_ws_space_hd:
  assumes "collapse_ws s \<noteq> []" and "is_space (hd (collapse_ws s))"
  shows "s \<noteq> [] \<and> is_space (hd s)"
proof (cases s)
  case Nil
  with assms show ?thesis by simp
next
  case (Cons c cs)
  with assms show ?thesis
    by (cases "is_space c") simp_all
qed

lemma collapse_ws_literal:
  assumes "\<forall>p \<in> set pat. \<not> is_space p"
    and "map lower_char (take (length pat) (collapse_ws s)) = pat"
  shows "map lower_char (take (length pat) s) = pat
     \<and> drop (length pat) (collapse_ws s) = collapse_ws (drop (length pat) s)"
  using assms
proof (induction pat arbitrary: s)
  case Nil
  then show ?case by simp
next
  case (Cons p ps)
  from Cons.prems(2) obtain a rest where c: "collapse_ws s = a # rest"
    by (cases "collapse_ws s") auto
  with Cons.prems(2) have a: "lower_char a = p"
    and rest: "map lower_char (take (length ps) rest) = ps"
    by simp_all
  have "\<not> is_space a"
  proof
    assume "is_space a"
    with a have "a = p" by (simp add: space_lower)
    with \<open>is_space a\<close> Cons.prems(1) show False by simp
  qed
  with c obtain u where u: "s = a # u" "collapse_ws u = rest"
    using collapse_ws_letter by blast
  from Cons.prems(1) have "\<forall>p \<in> set ps. \<not> is_space p"
    by simp
  from Cons.IH [OF this, of u] rest u(2)
  have "map lower_char (take (length ps) u) = ps
      \<and> drop (length ps) (collapse_ws u) = collapse_ws (drop (length ps) u)"
    by simp
  with a c u show ?case
    by simp
qed

lemma istarts_with_collapse_ws:
  assumes "\<forall>p \<in> set pat. \<not> is_space p" and "istarts_with pat (collapse_ws s)"
  shows "istarts_with pat s"
    and "drop (length pat) (collapse_ws s) = collapse_ws (drop (length pat) s)"
  using collapse_ws_literal [OF assms(1), of s] assms(2)
  by (simp_all add: istarts_with_def)

lemma free_download_head_collapse_ws:
  assumes "free_download_head (collapse_ws s)"
  shows "free_download_head s"
proof -
  let ?s1 = "dropWhile is_space s"
  let ?s2 = "drop 4 ?s1"
  let ?s3 = "dropWhile is_space ?s2"
  have l: "\<forall>p \<in> set (str ''free''). \<not> is_space p" "\<forall>p \<in> set (str ''download''). \<not> is_space p"
    by (simp_all add: is_space_def str_def)
  have n: "length (str ''free'') = 4" "length (str ''download'') = 8"
    by (simp_all add: str_def)
  from assms have "istarts_with (str ''free'') (dropWhile is_space (collapse_ws s))"
    unfolding free_download_head_def Let_def by (rule conjunct1)
  then have f: "istarts_with (str ''free'') (collapse_ws ?s1)"
    unfolding dropWhile_collapse_ws .
  then have f': "istarts_with (str ''free'') ?s1"
    and d4: "drop 4 (collapse_ws ?s1) = collapse_ws ?s2"
    using istarts_with_collapse_ws [OF l(1), of ?s1] unfolding n by blast+
  from assms have "drop 4 (dropWhile is_space (collapse_ws s)) \<noteq> []
      \<and> is_space (hd (drop 4 (dropWhile is_space (collapse_ws s))))
      \<and> istarts_with (str ''download'')
          (dropWhile is_space (drop 4 (dropWhile is_space (collapse_ws s))))"
    unfolding free_download_head_def Let_def by (rule conjunct2)
  then have "collapse_ws ?s2 \<noteq> [] \<and> is_space (hd (collapse_ws ?s2))
      \<and> istarts_with (str ''download'') (collapse_ws ?s3)"
    unfolding dropWhile_collapse_ws d4 .
  then have e: "collapse_ws ?s2 \<noteq> []" and w: "is_space (hd (collapse_ws ?s2))"
    and d: "istarts_with (str ''download'') (collapse_ws ?s3)"
    by blast+
  from e w have "?s2 \<noteq> [] \<and> is_space (hd ?s2)"
    by (rule collapse_ws_space_hd)
  moreover from d have "istarts_with (str ''download'') ?s3"
    by (rule istarts_with_collapse_ws(1) [OF l(2)])
  ultimately show ?thesis
    unfolding free_download_head_def Let_def using f' by blast
qed

lemma has_free_download_collapse_ws: "has_free_download (collapse_ws s) \<Longrightarrow> has_free_download s"
proof (induction s rule: collapse_ws.induct)
  case 1
  then show ?case by simp
next
  case (2 c cs)
  show ?case
  proof (cases "free_download_head (collapse_ws (c # cs))")
    case True
    then have "free_download_head (c # cs)"
      by (rule free_download_head_collapse_ws)
    then show ?thesis by simp
  next
    case False
    show ?thesis
    proof (cases "is_space c")
      case True
      with False "2.prems" have "has_free_download (collapse_ws (dropWhile is_space cs))"
        by simp
      with True "2.IH"(1) have "has_free_download (dropWhile is_space cs)"
        by simp
      then have "has_free_download cs"
        by (rule has_free_download_dropWhile)
      then show ?thesis by simp
    next
      case c: False
      with False "2.prems" have "has_free_download (collapse_ws cs)"
        by simp
      with c "2.IH"(2) have "has_free_download cs"
        by simp
      then show ?thesis by simp
    qed
  qed
qed

subsection \<open>The claim about \<open>clean_name\<close>\<close>

lemma has_free_download_sub_paren: "has_free_download (sub_paren s) \<Longrightarrow> has_free_download s"
proof -
  assume h: "has_free_download (sub_paren s)"
  obtain r where "s = sub_paren s @ r"
    using sub_paren_prefix by blast
  with h show ?thesis
    by (metis has_free_download_append)
qed

text \<open>
  Claim C8 (idempotent normalisation), as amended. For every string that contains no
  ampersand and no line feed and whose normalised name contains no opening parenthesis,
  normalising the normalised name changes nothing, whatever the replacement of character
  references does.
\<close>

theorem clean_name_idempotent:
  assumes "of_char CHR ''&'' \<notin> set x" and "newline \<notin> set x"
    and "of_char CHR ''('' \<notin> set (clean_name charref x)"
  shows "clean_name charref (clean_name charref x) = clean_name charref x"
proof (cases "x = []")
  case True
  then show ?thesis by (simp add: clean_name_def)
next
  case False
  define t1 where "t1 = strip x"
  define t2 where "t2 = strip (sub_free_download t1)"
  define t3 where "t3 = strip (sub_paren t2)"
  define y where "y = strip_chars stray (collapse_ws t3)"
  have s1: "set t1 \<subseteq> set x"
    unfolding t1_def by (rule set_strip)
  have s2: "set t2 \<subseteq> set x"
    unfolding t2_def using set_strip set_sub_free_download s1 by (meson subset_trans)
  have s3: "set t3 \<subseteq> set x"
    unfolding t3_def using set_strip set_sub_paren s2 by (meson subset_trans)
  have sy: "set y \<subseteq> insert (of_char CHR '' '') (set x)"
  proof -
    have "set y \<subseteq> set (collapse_ws t3)"
      unfolding y_def by (rule set_strip_chars)
    also have "\<dots> \<subseteq> insert (of_char CHR '' '') (set t3)"
      by (rule set_collapse_ws)
    finally show ?thesis
      using s3 by auto
  qed
  have amp: "of_char CHR ''&'' \<notin> set y"
    using sy assms(1) by auto
  have first: "clean_name charref x = y"
    using False amp
    by (simp add: clean_name_def Let_def unescape_def y_def t3_def t2_def t1_def)
  have par: "of_char CHR ''('' \<notin> set y"
    using assms(3) unfolding first .
  have "newline \<notin> set t1"
    using s1 assms(2) by auto
  then have "\<not> has_free_download (sub_free_download t1)"
    by (rule sub_free_download_clears)
  then have h2: "\<not> has_free_download t2"
    unfolding t2_def using has_free_download_strip by blast
  then have h3: "\<not> has_free_download t3"
    unfolding t3_def using has_free_download_strip has_free_download_sub_paren by blast
  have hy: "\<not> has_free_download y"
    unfolding y_def
    using h3 has_free_download_strip_chars has_free_download_collapse_ws by blast
  have f1: "strip y = y" and f2: "collapse_ws y = y" and f3: "strip_chars stray y = y"
    using tidy_fixed [OF y_def] by blast+
  have f4: "sub_free_download y = y"
    using hy by (rule sub_free_download_fixed)
  have f5: "sub_paren y = y"
    using par by (rule sub_paren_fixed)
  have "clean_name charref y = y"
    using amp by (simp add: clean_name_def Let_def unescape_def f1 f2 f3 f4 f5)
  with first show ?thesis
    by simp
qed

theorem clean_name_idempotent_witness:
  "clean_name id (str ''  Game   Name (2021) '') = str ''Game Name''
   \<and> clean_name id (clean_name id (str ''  Game   Name (2021) '')) = str ''Game Name''"
proof -
  let ?x = "str ''  Game   Name (2021) ''"
  have e: "clean_name id ?x = str ''Game Name''"
    by (simp add: clean_name_def strip_def is_space_def paren_at_def paren_closes_def
        free_download_at_def istarts_with_def lower_char_def strip_chars_def lstrip_chars_def
        rstrip_chars_def unescape_def newline_def rest_of_line_def str_def stray_def)
  have h1: "of_char CHR ''&'' \<notin> set ?x" and h2: "newline \<notin> set ?x"
    by (simp_all add: newline_def str_def)
  have h3: "of_char CHR ''('' \<notin> set (clean_name id ?x)"
    unfolding e by (simp add: str_def)
  from clean_name_idempotent [OF h1 h2 h3] e show ?thesis
    by simp
qed

text \<open>
  The claim as stated fails on printable text: a parenthesis that a trailing hyphen shields
  from the first normalisation is removed by the second. It fails too on text with a line
  feed after the promotional suffix: the first normalisation keeps the suffix, since \<open>.\<close>
  does not run over the line feed, and turns the line feed into a space, so the second
  removes the suffix.
\<close>

theorem clean_name_not_idempotent:
  "\<forall>charref. clean_name charref (str ''Game (2021) -'') = str ''Game (2021)''
     \<and> clean_name charref (clean_name charref (str ''Game (2021) -'')) = str ''Game''
     \<and> clean_name charref (str ''A free download x'' @ [newline] @ str ''y'') =
         str ''A free download x y''
     \<and> clean_name charref (clean_name charref (str ''A free download x'' @ [newline] @ str ''y'')) =
         str ''A''"
proof
  fix charref :: "pystr \<Rightarrow> pystr"
  have a: "clean_name charref (str ''Game (2021) -'') = str ''Game (2021)''"
    by (simp add: clean_name_def strip_def is_space_def paren_at_def paren_closes_def
        free_download_at_def istarts_with_def lower_char_def strip_chars_def lstrip_chars_def
        rstrip_chars_def unescape_def newline_def rest_of_line_def str_def stray_def)
  have b: "clean_name charref (str ''Game (2021)'') = str ''Game''"
    by (simp add: clean_name_def strip_def is_space_def paren_at_def paren_closes_def
        free_download_at_def istarts_with_def lower_char_def strip_chars_def lstrip_chars_def
        rstrip_chars_def unescape_def newline_def rest_of_line_def str_def stray_def)
  have c: "clean_name charref (str ''A free download x'' @ [newline] @ str ''y'') =
      str ''A free download x y''"
    by (simp add: clean_name_def strip_def is_space_def paren_at_def paren_closes_def
        free_download_at_def istarts_with_def lower_char_def strip_chars_def lstrip_chars_def
        rstrip_chars_def unescape_def newline_def rest_of_line_def str_def stray_def)
  have d: "clean_name charref (str ''A free download x y'') = str ''A''"
    by (simp add: clean_name_def strip_def is_space_def paren_at_def paren_closes_def
        free_download_at_def istarts_with_def lower_char_def strip_chars_def lstrip_chars_def
        rstrip_chars_def unescape_def newline_def rest_of_line_def str_def stray_def)
  show "clean_name charref (str ''Game (2021) -'') = str ''Game (2021)''
     \<and> clean_name charref (clean_name charref (str ''Game (2021) -'')) = str ''Game''
     \<and> clean_name charref (str ''A free download x'' @ [newline] @ str ''y'') =
         str ''A free download x y''
     \<and> clean_name charref (clean_name charref (str ''A free download x'' @ [newline] @ str ''y'')) =
         str ''A''"
    by (simp only: a b c d simp_thms)
qed

end
